theory Spec2Isabelle
  imports Complex_Main "HOL-Library.Char_ord" "HOL-Library.List_Lexorder" "HOL-Library.Product_Lexorder"
begin

section \<open>Bounded cache: \<open>LRUCache\<close> (youtube\_scraper.py)\<close>

text \<open>
  \<open>LRUCache\<close> wraps a Python \<open>OrderedDict\<close>. The ordered dictionary is an association
  list with pairwise distinct keys, oldest entry first. A Python exception is a value of
  \<open>py_error\<close>; a method that may raise returns \<open>py_error + _\<close>.
\<close>

datatype py_error =
    KeyError
  | ValueError string
  | AttributeError string
  | HttpFailure int string
  | RecursionError
  | OtherException string

type_synonym ('k, 'v) odict = "('k \<times> 'v) list"

definition od_contains :: "('k, 'v) odict \<Rightarrow> 'k \<Rightarrow> bool" where
  "od_contains d k = (k \<in> fst ` set d)"

text \<open>\<open>OrderedDict.move_to_end(key)\<close>: raises \<open>KeyError\<close> when the key is absent.\<close>

definition move_to_end :: "('k, 'v) odict \<Rightarrow> 'k \<Rightarrow> py_error + ('k, 'v) odict" where
  "move_to_end d k =
     (case map_of d k of
        None \<Rightarrow> Inl KeyError
      | Some v \<Rightarrow> Inr (filter (\<lambda>p. fst p \<noteq> k) d @ [(k, v)]))"

text \<open>\<open>OrderedDict.popitem(last=False)\<close>: removes the oldest entry, \<open>KeyError\<close> on an empty
  dictionary.\<close>

definition popitem_first :: "('k, 'v) odict \<Rightarrow> py_error + (('k \<times> 'v) \<times> ('k, 'v) odict)" where
  "popitem_first d = (case d of [] \<Rightarrow> Inl KeyError | p # ps \<Rightarrow> Inr (p, ps))"

text \<open>\<open>d[key] = value\<close>: an existing key keeps its position, a new key goes to the end.\<close>

definition od_setitem :: "('k, 'v) odict \<Rightarrow> 'k \<Rightarrow> 'v \<Rightarrow> ('k, 'v) odict" where
  "od_setitem d k v =
     (if od_contains d k then map (\<lambda>p. if fst p = k then (k, v) else p) d
      else d @ [(k, v)])"

record ('k, 'v) LRUCache =
  cache :: "('k, 'v) odict"
  max_size :: int

definition LRUCache_init :: "int \<Rightarrow> ('k, 'v) LRUCache" where
  "LRUCache_init m = \<lparr>cache = [], max_size = m\<rparr>"

definition lru_len :: "('k, 'v) LRUCache \<Rightarrow> int" where
  "lru_len c = int (length (cache c))"

text \<open>\<open>get(key, default=None)\<close>: the result is \<open>Some\<close> of the stored value, or \<open>None\<close> for
  the default; the cache is returned because a hit reorders it.\<close>

definition lru_get :: "('k, 'v) LRUCache \<Rightarrow> 'k \<Rightarrow> py_error + ('v option \<times> ('k, 'v) LRUCache)" where
  "lru_get c k =
     (if od_contains (cache c) k then
        (case move_to_end (cache c) k of
           Inl e \<Rightarrow> Inl e
         | Inr d \<Rightarrow> Inr (map_of d k, c\<lparr>cache := d\<rparr>))
      else Inr (None, c))"

definition lru_put :: "('k, 'v) LRUCache \<Rightarrow> 'k \<Rightarrow> 'v \<Rightarrow> py_error + ('k, 'v) LRUCache" where
  "lru_put c k v =
     (if od_contains (cache c) k then
        (case move_to_end (cache c) k of
           Inl e \<Rightarrow> Inl e
         | Inr d \<Rightarrow> Inr (c\<lparr>cache := od_setitem d k v\<rparr>))
      else if lru_len c \<ge> max_size c then
        (case popitem_first (cache c) of
           Inl e \<Rightarrow> Inl e
         | Inr (_, d) \<Rightarrow> Inr (c\<lparr>cache := od_setitem d k v\<rparr>))
      else Inr (c\<lparr>cache := od_setitem (cache c) k v\<rparr>))"

datatype ('k, 'v) cache_op = Put 'k 'v | Get 'k

text \<open>A sequence of calls; an exception ends the sequence, as an uncaught raise does.\<close>

fun lru_run :: "('k, 'v) LRUCache \<Rightarrow> ('k, 'v) cache_op list \<Rightarrow> py_error + ('k, 'v) LRUCache" where
  "lru_run c [] = Inr c"
| "lru_run c (Put k v # ops) =
     (case lru_put c k v of Inl e \<Rightarrow> Inl e | Inr c' \<Rightarrow> lru_run c' ops)"
| "lru_run c (Get k # ops) =
     (case lru_get c k of Inl e \<Rightarrow> Inl e | Inr (_, c') \<Rightarrow> lru_run c' ops)"

definition lru_inv :: "('k, 'v) LRUCache \<Rightarrow> bool" where
  "lru_inv c = (distinct (map fst (cache c)) \<and> lru_len c \<le> max_size c)"

subsection \<open>Facts about the cache\<close>

lemma move_to_end_Inr:
  "od_contains d k \<Longrightarrow> \<exists>v. map_of d k = Some v \<and> move_to_end d k = Inr (filter (\<lambda>p. fst p \<noteq> k) d @ [(k, v)])"
  unfolding od_contains_def move_to_end_def
  by (cases "map_of d k") (auto simp: map_of_eq_None_iff)

lemma od_setitem_moved:
  "od_setitem (filter (\<lambda>p. fst p \<noteq> k) d @ [(k, w)]) k v = filter (\<lambda>p. fst p \<noteq> k) d @ [(k, v)]"
  unfolding od_setitem_def od_contains_def
  by (auto intro: map_idI)

lemma lru_put_present:
  assumes "od_contains (cache c) k"
  shows "lru_put c k v = Inr (c\<lparr>cache := filter (\<lambda>p. fst p \<noteq> k) (cache c) @ [(k, v)]\<rparr>)"
proof -
  from move_to_end_Inr [OF assms] obtain w where
    "move_to_end (cache c) k = Inr (filter (\<lambda>p. fst p \<noteq> k) (cache c) @ [(k, w)])" by blast
  then show ?thesis using assms by (simp add: lru_put_def od_setitem_moved)
qed

lemma od_setitem_absent: "\<not> od_contains d k \<Longrightarrow> od_setitem d k v = d @ [(k, v)]"
  by (simp add: od_setitem_def)

lemma map_of_snoc_absent: "k \<notin> fst ` set d \<Longrightarrow> map_of (d @ [(k, v)]) k = Some v"
  by (simp add: map_add_def map_of_eq_None_iff [THEN iffD2] split: option.splits)

lemma lru_put_cache_shape:
  assumes "lru_put c k v = Inr c'"
  shows "\<exists>d. k \<notin> fst ` set d \<and> cache c' = d @ [(k, v)] \<and> max_size c' = max_size c"
proof (cases "od_contains (cache c) k")
  case True
  with assms lru_put_present [OF True, of v] show ?thesis
    by (intro exI [of _ "filter (\<lambda>p. fst p \<noteq> k) (cache c)"]) auto
next
  case False
  show ?thesis
  proof (cases "lru_len c \<ge> max_size c")
    case full: True
    with assms False obtain p d where pd: "cache c = p # d" and c': "c' = c\<lparr>cache := od_setitem d k v\<rparr>"
      by (auto simp: lru_put_def popitem_first_def split: list.splits sum.splits)
    from False pd have "\<not> od_contains d k" by (auto simp: od_contains_def)
    with c' show ?thesis by (auto simp: od_setitem_absent od_contains_def)
  next
    case nf: False
    with assms False show ?thesis
      by (auto simp: lru_put_def od_setitem_absent od_contains_def)
  qed
qed

lemma filter_fst_neq_absent: "k \<notin> fst ` set d \<Longrightarrow> filter (\<lambda>p. fst p \<noteq> k) d = d"
  by (induction d) auto

lemma lru_get_after_put:
  assumes "lru_put c k v = Inr c'"
  shows "lru_get c' k = Inr (Some v, c')"
proof -
  from lru_put_cache_shape [OF assms] obtain d where
    d: "k \<notin> fst ` set d" "cache c' = d @ [(k, v)]" by blast
  then have cont: "od_contains (cache c') k" by (simp add: od_contains_def)
  have mo: "map_of (d @ [(k, v)]) k = Some v" using d(1) by (rule map_of_snoc_absent)
  have "move_to_end (cache c') k = Inr (cache c')"
    using d mo by (simp add: move_to_end_def filter_fst_neq_absent)
  then show ?thesis using cont d mo by (simp add: lru_get_def)
qed

lemma length_filter_distinct_key:
  "distinct (map fst d) \<Longrightarrow> k \<in> fst ` set d \<Longrightarrow> Suc (length (filter (\<lambda>p. fst p \<noteq> k) d)) = length d"
  by (induction d) (auto simp: filter_fst_neq_absent)

lemma distinct_filter_keys: "distinct (map fst d) \<Longrightarrow> distinct (map fst (filter P d))"
  by (induction d) auto

lemma lru_put_inv:
  assumes "lru_inv c" "lru_put c k v = Inr c'"
  shows "lru_inv c'"
proof (cases "od_contains (cache c) k")
  case True
  from assms(2) lru_put_present [OF True, of v]
  have c': "c' = c\<lparr>cache := filter (\<lambda>p. fst p \<noteq> k) (cache c) @ [(k, v)]\<rparr>" by simp
  from assms(1) have dist: "distinct (map fst (cache c))" and le: "lru_len c \<le> max_size c"
    by (simp_all add: lru_inv_def)
  from length_filter_distinct_key [OF dist] True
  have "Suc (length (filter (\<lambda>p. fst p \<noteq> k) (cache c))) = length (cache c)"
    by (simp add: od_contains_def)
  with le dist c' show ?thesis
    by (auto simp: lru_inv_def lru_len_def distinct_filter_keys)
next
  case False
  from assms(1) have dist: "distinct (map fst (cache c))" and le: "lru_len c \<le> max_size c"
    by (simp_all add: lru_inv_def)
  show ?thesis
  proof (cases "lru_len c \<ge> max_size c")
    case full: True
    with assms(2) False obtain p d where pd: "cache c = p # d" and c': "c' = c\<lparr>cache := od_setitem d k v\<rparr>"
      by (auto simp: lru_put_def popitem_first_def split: list.splits sum.splits)
    from False pd have nk: "\<not> od_contains d k" by (auto simp: od_contains_def)
    with c' pd dist le show ?thesis
      by (auto simp: lru_inv_def lru_len_def od_setitem_absent od_contains_def)
  next
    case nf: False
    with assms(2) False have c': "c' = c\<lparr>cache := cache c @ [(k, v)]\<rparr>"
      by (auto simp: lru_put_def od_setitem_absent)
    with dist nf False show ?thesis
      by (auto simp: lru_inv_def lru_len_def od_contains_def)
  qed
qed

lemma lru_get_inv:
  assumes "lru_inv c" "lru_get c k = Inr (r, c')"
  shows "lru_inv c'"
proof (cases "od_contains (cache c) k")
  case True
  from move_to_end_Inr [OF True] obtain w where
    w: "move_to_end (cache c) k = Inr (filter (\<lambda>p. fst p \<noteq> k) (cache c) @ [(k, w)])" by blast
  with assms(2) True have c': "c' = c\<lparr>cache := filter (\<lambda>p. fst p \<noteq> k) (cache c) @ [(k, w)]\<rparr>"
    by (auto simp: lru_get_def)
  from assms(1) have dist: "distinct (map fst (cache c))" and le: "lru_len c \<le> max_size c"
    by (simp_all add: lru_inv_def)
  from length_filter_distinct_key [OF dist] True
  have "Suc (length (filter (\<lambda>p. fst p \<noteq> k) (cache c))) = length (cache c)"
    by (simp add: od_contains_def)
  with le dist c' show ?thesis
    by (auto simp: lru_inv_def lru_len_def distinct_filter_keys)
next
  case False
  with assms show ?thesis by (simp add: lru_get_def)
qed

lemma lru_run_inv: "lru_inv c \<Longrightarrow> lru_run c ops = Inr c' \<Longrightarrow> lru_inv c'"
proof (induction ops arbitrary: c)
  case Nil
  then show ?case by simp
next
  case (Cons a ops)
  show ?case
  proof (cases a)
    case (Put k v)
    with Cons.prems obtain c1 where c1: "lru_put c k v = Inr c1" "lru_run c1 ops = Inr c'"
      by (auto split: sum.splits)
    from lru_put_inv [OF Cons.prems(1) c1(1)] have "lru_inv c1" .
    from Cons.IH [OF this c1(2)] show ?thesis .
  next
    case (Get k)
    with Cons.prems obtain r c1 where c1: "lru_get c k = Inr (r, c1)" "lru_run c1 ops = Inr c'"
      by (auto split: sum.splits)
    from lru_get_inv [OF Cons.prems(1) c1(1)] have "lru_inv c1" .
    from Cons.IH [OF this c1(2)] show ?thesis .
  qed
qed

lemma lru_run_max_size: "lru_run c ops = Inr c' \<Longrightarrow> max_size c' = max_size c"
proof (induction ops arbitrary: c)
  case Nil
  then show ?case by simp
next
  case (Cons a ops)
  show ?case
  proof (cases a)
    case (Put k v)
    with Cons.prems obtain c1 where c1: "lru_put c k v = Inr c1" "lru_run c1 ops = Inr c'"
      by (auto split: sum.splits)
    from lru_put_cache_shape [OF c1(1)] have "max_size c1 = max_size c" by blast
    with Cons.IH [OF c1(2)] show ?thesis by simp
  next
    case (Get k)
    with Cons.prems obtain r c1 where c1: "lru_get c k = Inr (r, c1)" "lru_run c1 ops = Inr c'"
      by (auto split: sum.splits)
    then have "max_size c1 = max_size c"
      by (auto simp: lru_get_def move_to_end_def split: if_splits option.splits)
    with Cons.IH [OF c1(2)] show ?thesis by simp
  qed
qed

lemma lru_put_succeeds:
  assumes "0 < max_size c" "lru_inv c"
  shows "\<exists>c'. lru_put c k v = Inr c'"
proof (cases "od_contains (cache c) k")
  case True
  then show ?thesis by (simp add: lru_put_present)
next
  case False
  then show ?thesis using assms
    by (cases "cache c") (auto simp: lru_put_def popitem_first_def lru_len_def)
qed

lemma lru_get_succeeds: "\<exists>r c'. lru_get c k = Inr (r, c')"
proof (cases "od_contains (cache c) k")
  case True
  from move_to_end_Inr [OF True] obtain w where
    "move_to_end (cache c) k = Inr (filter (\<lambda>p. fst p \<noteq> k) (cache c) @ [(k, w)])" by blast
  then show ?thesis using True by (simp add: lru_get_def)
next
  case False
  then show ?thesis by (simp add: lru_get_def)
qed

lemma map_of_filter_other:
  "k' \<noteq> k \<Longrightarrow> map_of (filter (\<lambda>p. fst p \<noteq> k) d @ [(k, v)]) k' = map_of d k'"
  by (induction d) (auto simp: map_add_def split: option.splits)

text \<open>
  Claim C7. Starting from an empty cache of capacity \<open>m \<ge> 0\<close>, every sequence of
  \<open>put\<close>/\<open>get\<close> calls that runs to its end leaves at most \<open>m\<close> entries (the statement
  holds for every sequence, hence for every prefix, so the bound holds at every moment); a
  \<open>get\<close> right after a \<open>put\<close> of the same key returns the value that was put; a \<open>put\<close>
  on a cache of positive capacity never raises; and a \<open>put\<close> on a key that is already
  present moves that key to the most recent position with the new value, keeps the number of
  entries and the key set, and leaves every other entry as it was.
\<close>

theorem lru_cache_bounded_put_get:
  "(0 \<le> m \<longrightarrow> lru_run (LRUCache_init m) ops = Inr c \<longrightarrow> lru_len c \<le> m)
   \<and> (lru_put c0 k v = Inr c1 \<longrightarrow> lru_get c1 k = Inr (Some v, c1))
   \<and> (lru_inv c0 \<and> 0 < max_size c0 \<longrightarrow> (\<exists>c2. lru_put c0 k v = Inr c2))
   \<and> (lru_inv c0 \<and> od_contains (cache c0) k \<longrightarrow>
        (\<exists>c2. lru_put c0 k v = Inr c2
           \<and> cache c2 = filter (\<lambda>p. fst p \<noteq> k) (cache c0) @ [(k, v)]
           \<and> lru_len c2 = lru_len c0
           \<and> fst ` set (cache c2) = fst ` set (cache c0)
           \<and> (\<forall>k'. k' \<noteq> k \<longrightarrow> map_of (cache c2) k' = map_of (cache c0) k')))"
proof (intro conjI impI)
  assume m: "0 \<le> m" and run: "lru_run (LRUCache_init m) ops = Inr c"
  have "lru_inv (LRUCache_init m :: ('a, 'b) LRUCache)"
    using m by (simp add: lru_inv_def LRUCache_init_def lru_len_def)
  from lru_run_inv [OF this run] have "lru_len c \<le> max_size c" by (simp add: lru_inv_def)
  moreover from lru_run_max_size [OF run] have "max_size c = m" by (simp add: LRUCache_init_def)
  ultimately show "lru_len c \<le> m" by simp
next
  assume "lru_put c0 k v = Inr c1"
  then show "lru_get c1 k = Inr (Some v, c1)" by (rule lru_get_after_put)
next
  assume "lru_inv c0 \<and> 0 < max_size c0"
  then have "0 < max_size c0" "lru_inv c0" by simp_all
  then show "\<exists>c2. lru_put c0 k v = Inr c2" by (rule lru_put_succeeds)
next
  assume a: "lru_inv c0 \<and> od_contains (cache c0) k"
  then have pres: "od_contains (cache c0) k" and dist: "distinct (map fst (cache c0))"
    by (simp_all add: lru_inv_def)
  let ?d = "filter (\<lambda>p. fst p \<noteq> k) (cache c0) @ [(k, v)]"
  have put: "lru_put c0 k v = Inr (c0\<lparr>cache := ?d\<rparr>)" using pres by (rule lru_put_present)
  have len: "Suc (length (filter (\<lambda>p. fst p \<noteq> k) (cache c0))) = length (cache c0)"
    using length_filter_distinct_key [OF dist] pres by (simp add: od_contains_def)
  have keys: "fst ` set ?d = fst ` set (cache c0)"
    using pres by (auto simp: od_contains_def)
  have other: "map_of ?d k' = map_of (cache c0) k'" if "k' \<noteq> k" for k'
    using that by (rule map_of_filter_other)
  show "\<exists>c2. lru_put c0 k v = Inr c2
           \<and> cache c2 = ?d
           \<and> lru_len c2 = lru_len c0
           \<and> fst ` set (cache c2) = fst ` set (cache c0)
           \<and> (\<forall>k'. k' \<noteq> k \<longrightarrow> map_of (cache c2) k' = map_of (cache c0) k')"
    using put len keys other by (intro exI [of _ "c0\<lparr>cache := ?d\<rparr>"]) (simp add: lru_len_def)
qed

theorem lru_cache_bounded_put_get_witness:
  "lru_len \<lparr>cache = [(2::nat, 20::nat), (3, 30)], max_size = 2\<rparr> \<le> 2
   \<and> lru_get \<lparr>cache = [(3::nat, 30::nat), (2, 21)], max_size = 2\<rparr> 2
        = Inr (Some 21, \<lparr>cache = [(3, 30), (2, 21)], max_size = 2\<rparr>)
   \<and> (\<exists>c2. lru_put \<lparr>cache = [(2::nat, 20::nat), (3, 30)], max_size = 2\<rparr> 2 21 = Inr c2
         \<and> cache c2 = [(3, 30), (2, 21)])"
proof -
  let ?c0 = "\<lparr>cache = [(2::nat, 20::nat), (3, 30)], max_size = 2\<rparr>"
  let ?c1 = "\<lparr>cache = [(3::nat, 30::nat), (2, 21)], max_size = 2\<rparr>"
  have h1: "(0::int) \<le> 2" by simp
  have h2: "lru_run (LRUCache_init 2) [Put (1::nat) (10::nat), Put 2 20, Put 3 30] = Inr ?c0"
    by (simp add: LRUCache_init_def lru_put_def lru_len_def od_contains_def od_setitem_def
        popitem_first_def move_to_end_def)
  have h3: "lru_put ?c0 2 21 = Inr ?c1"
    by (simp add: lru_put_def lru_len_def od_contains_def od_setitem_def move_to_end_def)
  have h4: "lru_inv ?c0 \<and> 0 < max_size ?c0" by (simp add: lru_inv_def lru_len_def)
  have h5: "lru_inv ?c0 \<and> od_contains (cache ?c0) 2" by (simp add: lru_inv_def lru_len_def od_contains_def)
  show ?thesis
    using lru_cache_bounded_put_get [of 2 "[Put 1 10, Put 2 20, Put 3 30]" ?c0 ?c0 2 21 ?c1]
      h1 h2 h3 h4 h5
    by simp
qed

section \<open>Fuzzy deduplicator: string helpers\<close>

text \<open>
  Python strings are modelled as \<open>string\<close>; the helpers below give the ASCII behaviour of
  \<open>str.lower\<close>, \<open>str.strip\<close> and the regular expression class \<open>\d\<close>. Floating point values
  (similarities, the threshold) are modelled as exact rationals.
\<close>

definition lower_char :: "char \<Rightarrow> char" where
  "lower_char c =
     (if CHR ''A'' \<le> c \<and> c \<le> CHR ''Z'' then char_of (of_char c + (32::nat)) else c)"

definition lower :: "string \<Rightarrow> string" where
  "lower s = map lower_char s"

text \<open>Whitespace of \<open>str.strip()\<close>: tab, line feed, vertical tab, form feed, carriage
  return, the separators 0x1C..0x1F and the space.\<close>

definition is_space :: "char \<Rightarrow> bool" where
  "is_space c = (c \<in> set [CHR 0x09, CHR 0x0A, CHR 0x0B, CHR 0x0C, CHR 0x0D,
                            CHR 0x1C, CHR 0x1D, CHR 0x1E, CHR 0x1F, CHR 0x20])"

definition strip :: "string \<Rightarrow> string" where
  "strip s = rev (dropWhile is_space (rev (dropWhile is_space s)))"

definition is_digit :: "char \<Rightarrow> bool" where
  "is_digit c = (CHR ''0'' \<le> c \<and> c \<le> CHR ''9'')"

text \<open>\<open>s.split(sep, 1)\<close> for a string that contains \<open>sep\<close>: the part before the first
  separator and the part after it.\<close>

definition split_first :: "char \<Rightarrow> string \<Rightarrow> string \<times> string" where
  "split_first sep s = (takeWhile (\<lambda>c. c \<noteq> sep) s, drop 1 (dropWhile (\<lambda>c. c \<noteq> sep) s))"

text \<open>\<open>s.split(sep)[-1]\<close>: the part after the last separator, the whole string when there
  is none.\<close>

definition split_last :: "char \<Rightarrow> string \<Rightarrow> string" where
  "split_last sep s = rev (takeWhile (\<lambda>c. c \<noteq> sep) (rev s))"

definition startswith :: "string \<Rightarrow> string \<Rightarrow> bool" where
  "startswith s p = (take (length p) s = p)"

text \<open>\<open>re.sub(r'\d+$', '', s)\<close>: the run of digits at the end of the string is removed;
  \<open>$\<close> also matches just before a line feed that ends the string, and then the digits
  before that line feed are removed.\<close>

definition sub_trailing_digits :: "string \<Rightarrow> string" where
  "sub_trailing_digits s =
     (if s \<noteq> [] \<and> last s = CHR 0x0A
      then rev (dropWhile is_digit (rev (butlast s))) @ [CHR 0x0A]
      else rev (dropWhile is_digit (rev s)))"

section \<open>Fuzzy deduplicator: \<open>normalize_email\<close>, \<open>calculate_email_similarity\<close>\<close>

definition strip_prefix :: "string \<Rightarrow> string \<Rightarrow> string" where
  "strip_prefix username pre =
     (if startswith username pre \<and> length username > length pre + 1
      then (if username ! (length pre) \<in> set [CHR ''.'', CHR ''-'', CHR ''_'']
            then drop (length pre + 1) username else username)
      else username)"

definition common_prefixes :: "string list" where
  "common_prefixes =
     [''contact'', ''info'', ''support'', ''admin'', ''mail'', ''email'', ''hello'', ''business'']"

text \<open>The update of the statistics dictionary \<open>email_domains\<close> inside \<open>normalize_email\<close>
  does not influence the returned string and is left out.\<close>

definition normalize_email :: "string \<Rightarrow> string" where
  "normalize_email email =
     (if email = [] \<or> CHR ''@'' \<notin> set email then email
      else
        let (username0, domain0) = split_first (CHR ''@'') (strip (lower email));
            (username1, domain) =
               (if domain0 \<in> set [''gmail.com'', ''googlemail.com'']
                then (let u = filter (\<lambda>c. c \<noteq> CHR ''.'') username0;
                          u' = (if CHR ''+'' \<in> set u then fst (split_first (CHR ''+'') u) else u)
                      in (u', ''gmail.com''))
                else (username0, domain0));
            username2 = foldl strip_prefix username1 common_prefixes;
            username_no_digits = sub_trailing_digits username2;
            username =
               (if length username_no_digits > 2 \<and> username_no_digits \<noteq> username2
                then username_no_digits else username2)
        in username @ ''@'' @ domain)"

text \<open>
  \<open>_levenshtein_ratio\<close>: the inner loop of the dynamic programme. \<open>lev_inner c1 s2 prev cur\<close>
  is called with \<open>prev = previous_row[j:]\<close> and \<open>cur = current_row[j]\<close> and returns the
  entries appended to \<open>current_row\<close> from column \<open>j + 1\<close> on. The previous row always has
  one more entry than the part of \<open>s2\<close> still to read, so the last equation is never used
  (lemma \<open>lev_inner_length\<close>).
\<close>

fun lev_inner :: "char \<Rightarrow> string \<Rightarrow> nat list \<Rightarrow> nat \<Rightarrow> nat list" where
  "lev_inner c1 (c2 # s2) (p0 # p1 # prev) cur =
     (let insertions = p1 + 1;
          deletions = cur + 1;
          substitutions = p0 + (if c1 \<noteq> c2 then 1 else 0);
          v = min insertions (min deletions substitutions)
      in v # lev_inner c1 s2 (p1 # prev) v)"
| "lev_inner c1 _ _ cur = []"

fun lev_outer :: "string \<Rightarrow> string \<Rightarrow> nat \<Rightarrow> nat list \<Rightarrow> nat list" where
  "lev_outer [] s2 i previous_row = previous_row"
| "lev_outer (c1 # s1) s2 i previous_row =
     lev_outer s1 s2 (i + 1) ((i + 1) # lev_inner c1 s2 previous_row (i + 1))"

definition levenshtein_distance :: "string \<Rightarrow> string \<Rightarrow> nat" where
  "levenshtein_distance s1 s2 = last (lev_outer s1 s2 0 [0..<length s2 + 1])"

definition levenshtein_ratio :: "string \<Rightarrow> string \<Rightarrow> rat" where
  "levenshtein_ratio s1 s2 =
     (if s1 = s2 then 1
      else
        let (a, b) = (if length s1 < length s2 then (s2, s1) else (s1, s2));
            len_s1 = length a
        in if len_s1 = 0 then 0
           else
             let distance = levenshtein_distance a b;
                 max_len = max (length a) (length b)
             in 1 - of_nat distance / of_nat max_len)"

definition calculate_email_similarity :: "string \<Rightarrow> string \<Rightarrow> rat" where
  "calculate_email_similarity email1 email2 =
     (if email1 = email2 then 1
      else if CHR ''@'' \<notin> set email1 \<or> CHR ''@'' \<notin> set email2 then 0
      else
        let (username1, domain1) = split_first (CHR ''@'') (lower email1);
            (username2, domain2) = split_first (CHR ''@'') (lower email2)
        in if domain1 \<noteq> domain2 then 0
           else if length username1 \<le> 3 \<or> length username2 \<le> 3
           then (if username1 = username2 then 1 else 0)
           else
             let similarity = levenshtein_ratio username1 username2
             in if startswith username1 username2 \<or> startswith username2 username1
                then min 1 (similarity + 15 / 100)
                else similarity)"

text \<open>The Levenshtein recurrence: the distance of two strings from the distances of the
  strings without their first characters.\<close>

fun levenshtein :: "'a list \<Rightarrow> 'a list \<Rightarrow> nat" where
  "levenshtein [] ys = length ys"
| "levenshtein (x # xs) [] = Suc (length xs)"
| "levenshtein (x # xs) (y # ys) =
     min (levenshtein xs (y # ys) + 1) (min (levenshtein (x # xs) ys + 1) (levenshtein xs ys + (if x \<noteq> y then 1 else 0)))"

section \<open>Fuzzy deduplicator: grouping and choice of the representative\<close>

text \<open>
  The inner loop of \<open>_filter_similar_emails\<close> and of \<open>remove_email_duplicates\<close>: every
  other address that is not yet used and whose normalised form is similar to the normalised
  seed joins the group of the seed. The dictionary \<open>normalized_emails\<close> holds
  \<open>normalize_email e\<close> for every \<open>e\<close> of the list, so a look-up is a call.
\<close>

fun collect_similar ::
  "rat \<Rightarrow> string \<Rightarrow> string list \<Rightarrow> string list \<Rightarrow> string list \<Rightarrow> string list \<times> string list" where
  "collect_similar thr email [] grp used = (grp, used)"
| "collect_similar thr email (other # rest) grp used =
     (if other \<noteq> email \<and> other \<notin> set used
         \<and> calculate_email_similarity (normalize_email email) (normalize_email other) \<ge> thr
      then collect_similar thr email rest (grp @ [other]) (other # used)
      else collect_similar thr email rest grp used)"

text \<open>The outer loop of \<open>remove_email_duplicates\<close>: the list of groups, in the order of
  their seeds. \<open>emails\<close> is the whole list, the third argument the part still to visit.\<close>

fun group_emails :: "rat \<Rightarrow> string list \<Rightarrow> string list \<Rightarrow> string list \<Rightarrow> string list list" where
  "group_emails thr emails [] used = []"
| "group_emails thr emails (email # rest) used =
     (if email \<in> set used then group_emails thr emails rest used
      else
        (case collect_similar thr email emails [email] (email # used) of
           (grp, used') \<Rightarrow> grp # group_emails thr emails rest used'))"

text \<open>Python's \<open>min(group, key=...)\<close>: the first element whose key is minimal.\<close>

fun min_by :: "('a \<Rightarrow> 'b::linorder) \<Rightarrow> 'a \<Rightarrow> 'a list \<Rightarrow> 'a" where
  "min_by key best [] = best"
| "min_by key best (x # xs) = min_by key (if key x < key best then x else best) xs"

definition group_key :: "string list \<Rightarrow> string \<Rightarrow> bool \<times> nat \<times> string" where
  "group_key common e = (split_last (CHR ''@'') e \<notin> set common, length e, e)"

text \<open>The choice of the representative. A group always holds its seed, so the first
  equation is never used.\<close>

fun select_best :: "string list \<Rightarrow> string list \<Rightarrow> string" where
  "select_best common [] = []"
| "select_best common [e] = e"
| "select_best common (e # es) = min_by (group_key common) e es"

text \<open>The plain removal of duplicates used when similarity filtering is switched off.\<close>

fun simple_dedup :: "string list \<Rightarrow> string list \<Rightarrow> string list" where
  "simple_dedup [] seen = []"
| "simple_dedup (e # es) seen =
     (if e \<in> set seen then simple_dedup es seen else e # simple_dedup es (e # seen))"

text \<open>
  \<open>remove_email_duplicates\<close> reads the addresses of \<open>emails.txt\<close> into the list \<open>emails\<close>,
  and writes the list of representatives back. The function below maps the list read to the
  list written; \<open>filter_similar\<close> is the setting \<open>filter_similar_emails\<close>, \<open>thr\<close> the
  setting \<open>similarity_threshold\<close>. With no address in the file nothing is written.
\<close>

definition remove_email_duplicates :: "bool \<Rightarrow> rat \<Rightarrow> string list \<Rightarrow> string list" where
  "remove_email_duplicates filter_similar thr emails =
     (if emails = [] then []
      else if filter_similar
      then map (select_best [''gmail.com'', ''yahoo.com'', ''hotmail.com''])
             (group_emails thr emails emails [])
      else simple_dedup emails [])"

text \<open>
  \<open>_filter_similar_emails\<close> has the same two loops, and chooses the representative inside
  the outer loop. For a group of more than one address it reads \<open>self.common_domains\<close>,
  an attribute that \<open>YouTubeChannelScraper\<close> never sets (only \<open>AdvancedEmailFinder\<close> has
  one), so the call raises \<open>AttributeError\<close>.
\<close>

fun filter_loop ::
  "rat \<Rightarrow> string list \<Rightarrow> string list \<Rightarrow> string list \<Rightarrow> string list \<Rightarrow> py_error + string list" where
  "filter_loop thr emails [] used unique_emails = Inr unique_emails"
| "filter_loop thr emails (email # rest) used unique_emails =
     (if email \<in> set used then filter_loop thr emails rest used unique_emails
      else
        (case collect_similar thr email emails [email] (email # used) of
           (similar_group, used') \<Rightarrow>
             if length similar_group > 1 then Inl (AttributeError ''common_domains'')
             else filter_loop thr emails rest used' (unique_emails @ [email])))"

definition filter_similar_emails :: "rat \<Rightarrow> string list \<Rightarrow> py_error + string list" where
  "filter_similar_emails thr emails =
     (if emails = [] \<or> length emails \<le> 1 then Inr emails
      else filter_loop thr emails emails [] [])"


section \<open>Fuzzy deduplicator: the dynamic programme computes the Levenshtein distance\<close>

fun rprefixes :: "'a list \<Rightarrow> 'a list \<Rightarrow> 'a list list" where
  "rprefixes q [] = [q]"
| "rprefixes q (c # t) = q # rprefixes (c # q) t"

lemma rprefixes_nonempty: "rprefixes q t \<noteq> []"
  by (cases t) auto

lemma length_rprefixes: "length (rprefixes q t) = Suc (length t)"
  by (induction t arbitrary: q) auto

lemma last_rprefixes: "last (rprefixes q t) = rev t @ q"
  by (induction t arbitrary: q) (auto simp: rprefixes_nonempty)

lemma map_length_rprefixes: "map length (rprefixes q t) = [length q..<length q + length t + 1]"
proof (induction t arbitrary: q)
  case Nil
  then show ?case by simp
next
  case (Cons c t)
  have "[length q..<length q + length (c # t) + 1] = length q # [Suc (length q)..<length q + length (c # t) + 1]"
    by (rule upt_conv_Cons) simp
  with Cons [of "c # q"] show ?case by simp
qed

lemma levenshtein_Nil2: "levenshtein xs [] = length xs"
  by (cases xs) auto

lemma levenshtein_sym: "levenshtein xs ys = levenshtein ys xs"
  by (induction xs ys rule: levenshtein.induct) (auto simp: levenshtein_Nil2 min.commute min.left_commute)

lemma levenshtein_le_max: "levenshtein xs ys \<le> max (length xs) (length ys)"
  by (induction xs ys rule: levenshtein.induct) (auto simp: min_le_iff_disj)

lemma lev_inner_length: "length prev = Suc (length s2) \<Longrightarrow> length (lev_inner c1 s2 prev cur) = length s2"
proof (induction c1 s2 prev cur rule: lev_inner.induct)
  case (1 c1 c2 s2 p0 p1 prev cur)
  then show ?case by (simp add: Let_def)
qed auto

lemma lev_inner_levenshtein:
  "lev_inner c1 t (map (levenshtein rp) (rprefixes q t)) (levenshtein (c1 # rp) q)
     = map (levenshtein (c1 # rp)) (tl (rprefixes q t))"
proof (induction t arbitrary: q)
  case Nil
  then show ?case by simp
next
  case (Cons c2 t)
  obtain r rs where r: "rprefixes (c2 # q) t = r # rs" "r = c2 # q"
    by (cases t) auto
  have v: "min (levenshtein rp (c2 # q) + 1) (min (levenshtein (c1 # rp) q + 1) (levenshtein rp q + (if c1 \<noteq> c2 then 1 else 0)))
            = levenshtein (c1 # rp) (c2 # q)"
    by simp
  have "lev_inner c1 (c2 # t) (map (levenshtein rp) (rprefixes q (c2 # t))) (levenshtein (c1 # rp) q)
        = levenshtein (c1 # rp) (c2 # q) # lev_inner c1 t (map (levenshtein rp) (rprefixes (c2 # q) t)) (levenshtein (c1 # rp) (c2 # q))"
    using r by (simp add: Let_def del: levenshtein.simps)
        (simp add: min.commute min.left_commute)
  also have "\<dots> = levenshtein (c1 # rp) (c2 # q) # map (levenshtein (c1 # rp)) (tl (rprefixes (c2 # q) t))"
    by (simp only: Cons.IH)
  also have "\<dots> = map (levenshtein (c1 # rp)) (tl (rprefixes q (c2 # t)))"
    using r by simp
  finally show ?case .
qed

lemma lev_outer_levenshtein:
  "lev_outer s1 s2 (length rp) (map (levenshtein rp) (rprefixes [] s2))
     = map (levenshtein (rev s1 @ rp)) (rprefixes [] s2)"
proof (induction s1 arbitrary: rp)
  case Nil
  then show ?case by simp
next
  case (Cons c1 s1)
  have hd: "rprefixes [] s2 = [] # tl (rprefixes [] s2)"
    by (cases s2) auto
  have "(length rp + 1) # lev_inner c1 s2 (map (levenshtein rp) (rprefixes [] s2)) (length rp + 1)
          = map (levenshtein (c1 # rp)) (rprefixes [] s2)"
  proof -
    have "lev_inner c1 s2 (map (levenshtein rp) (rprefixes [] s2)) (levenshtein (c1 # rp) [])
            = map (levenshtein (c1 # rp)) (tl (rprefixes [] s2))"
      by (rule lev_inner_levenshtein)
    moreover have "map (levenshtein (c1 # rp)) (rprefixes [] s2)
        = levenshtein (c1 # rp) [] # map (levenshtein (c1 # rp)) (tl (rprefixes [] s2))"
      by (subst hd) simp
    ultimately show ?thesis by simp
  qed
  then have "lev_outer (c1 # s1) s2 (length rp) (map (levenshtein rp) (rprefixes [] s2))
      = lev_outer s1 s2 (length (c1 # rp)) (map (levenshtein (c1 # rp)) (rprefixes [] s2))"
    by simp
  also have "\<dots> = map (levenshtein (rev s1 @ c1 # rp)) (rprefixes [] s2)"
    by (rule Cons.IH)
  finally show ?case by simp
qed

lemma initial_row: "[0..<length s2 + 1] = map (levenshtein []) (rprefixes [] s2)"
proof -
  have "map (levenshtein []) (rprefixes [] s2) = map length (rprefixes ([]::'a list) s2)"
    by (rule map_cong) auto
  then show ?thesis by (simp add: map_length_rprefixes)
qed

lemma levenshtein_distance_eq: "levenshtein_distance s1 s2 = levenshtein (rev s1) (rev s2)"
proof -
  have "lev_outer s1 s2 0 [0..<length s2 + 1] = map (levenshtein (rev s1)) (rprefixes [] s2)"
    using lev_outer_levenshtein [of s1 s2 "[]"] by (simp add: initial_row [symmetric])
  then show ?thesis
    by (simp add: levenshtein_distance_def last_map rprefixes_nonempty last_rprefixes)
qed

lemma levenshtein_distance_sym: "levenshtein_distance s1 s2 = levenshtein_distance s2 s1"
  by (simp add: levenshtein_distance_eq levenshtein_sym)

lemma levenshtein_distance_le: "levenshtein_distance s1 s2 \<le> max (length s1) (length s2)"
  using levenshtein_le_max [of "rev s1" "rev s2"] by (simp add: levenshtein_distance_eq)

lemma levenshtein_ratio_sym: "levenshtein_ratio s1 s2 = levenshtein_ratio s2 s1"
proof -
  consider "s1 = s2" | "s1 \<noteq> s2" "length s1 < length s2" | "s1 \<noteq> s2" "length s2 < length s1"
    | "s1 \<noteq> s2" "length s1 = length s2" by linarith
  then show ?thesis
  proof cases
    case 1 then show ?thesis by simp
  next
    case 2 then show ?thesis by (auto simp: levenshtein_ratio_def Let_def max.commute)
  next
    case 3 then show ?thesis by (auto simp: levenshtein_ratio_def Let_def max.commute)
  next
    case 4 then show ?thesis
      by (auto simp: levenshtein_ratio_def Let_def levenshtein_distance_sym [of s1 s2])
  qed
qed

lemma levenshtein_ratio_range: "0 \<le> levenshtein_ratio s1 s2 \<and> levenshtein_ratio s1 s2 \<le> 1"
proof -
  have frac: "0 \<le> (of_nat (levenshtein_distance a b) :: rat) / of_nat (max (length a) (length b))
        \<and> (of_nat (levenshtein_distance a b) :: rat) / of_nat (max (length a) (length b)) \<le> 1" for a b
  proof -
    define m where "m = max (length a) (length b)"
    define d where "d = levenshtein_distance a b"
    have le: "d \<le> m" unfolding m_def d_def by (rule levenshtein_distance_le)
    have "0 \<le> (of_nat d :: rat) / of_nat m \<and> (of_nat d :: rat) / of_nat m \<le> 1"
    proof (cases "m = 0")
      case True
      then show ?thesis by simp
    next
      case False
      then have "(0::rat) < of_nat m" by simp
      moreover have "(of_nat d :: rat) \<le> of_nat m" using le by (simp only: of_nat_le_iff)
      ultimately show ?thesis by (simp add: divide_le_eq_1_pos)
    qed
    then show ?thesis unfolding m_def d_def .
  qed
  show ?thesis
    using frac [of s1 s2] frac [of s2 s1]
    by (auto simp: levenshtein_ratio_def Let_def)
qed

lemma calculate_email_similarity_sym:
  "calculate_email_similarity a b = calculate_email_similarity b a"
  by (cases "split_first (CHR ''@'') (lower a)"; cases "split_first (CHR ''@'') (lower b)")
     (auto simp: calculate_email_similarity_def Let_def levenshtein_ratio_sym)

lemma calculate_email_similarity_range:
  "0 \<le> calculate_email_similarity a b \<and> calculate_email_similarity a b \<le> 1"
proof -
  obtain u1 d1 where s1: "split_first (CHR ''@'') (lower a) = (u1, d1)" by force
  obtain u2 d2 where s2: "split_first (CHR ''@'') (lower b) = (u2, d2)" by force
  from levenshtein_ratio_range [of u1 u2] show ?thesis
    by (auto simp: calculate_email_similarity_def Let_def s1 s2)
qed

lemma min_Suc_Suc: "Suc (min a b) = min (Suc a) (Suc b)"
  by simp

lemma levenshtein_single_snoc:
  "levenshtein [x] (ys @ [y]) =
     min (length ys + 2) (min (levenshtein [x] ys + 1) (length ys + (if x \<noteq> y then 1 else 0)))"
proof (induction ys)
  case Nil
  then show ?case by simp
next
  case (Cons b ys)
  define n where "n = length ys"
  define E where "E = levenshtein [x] ys"
  define c :: nat where "c = (if x \<noteq> y then 1 else 0)"
  define cb :: nat where "cb = (if x \<noteq> b then 1 else 0)"
  have head: "levenshtein [x] (b # ys) = min (n + 2) (min (E + 1) (n + cb))"
    by (simp add: n_def E_def cb_def)
  have ih: "levenshtein [x] (ys @ [y]) = min (n + 2) (min (E + 1) (n + c))"
    using Cons.IH by (simp add: n_def E_def c_def)
  have "levenshtein [x] ((b # ys) @ [y]) = min (n + 3) (min (levenshtein [x] (ys @ [y]) + 1) (n + 1 + cb))"
    by (simp add: n_def cb_def)
  also have "\<dots> = min (n + 3) (min (min (n + 2) (min (E + 1) (n + c)) + 1) (n + 1 + cb))"
    by (simp only: ih)
  also have "\<dots> = min (n + 1 + 2) (min (min (n + 2) (min (E + 1) (n + cb)) + 1) (n + 1 + c))"
    by arith
  also have "\<dots> = min (length (b # ys) + 2)
     (min (levenshtein [x] (b # ys) + 1) (length (b # ys) + (if x \<noteq> y then 1 else 0)))"
    by (simp only: head n_def c_def list.size(4))
       (simp)
  finally show ?case .
qed

lemma levenshtein_snoc:
  "levenshtein (xs @ [x]) (ys @ [y]) =
     min (levenshtein xs (ys @ [y]) + 1)
       (min (levenshtein (xs @ [x]) ys + 1) (levenshtein xs ys + (if x \<noteq> y then 1 else 0)))"
proof (induction xs ys rule: levenshtein.induct)
  case (1 ys)
  show ?case using levenshtein_single_snoc [of x ys y] by simp
next
  case (2 a xs)
  define E where "E = levenshtein (a # xs) [y]"
  define n where "n = length (a # xs)"
  define c :: nat where "c = (if x \<noteq> y then 1 else 0)"
  have c': "(if y \<noteq> x then 1 else 0) = c" by (simp add: c_def)
  have "levenshtein ((a # xs) @ [x]) ([] @ [y]) = levenshtein [y] ((a # xs) @ [x])"
    by (simp only: levenshtein_sym [of "(a # xs) @ [x]"] append_Nil)
  also have "\<dots> = min (n + 2) (min (levenshtein [y] (a # xs) + 1) (n + (if y \<noteq> x then 1 else 0)))"
    unfolding n_def by (rule levenshtein_single_snoc)
  also have "\<dots> = min (n + 2) (min (E + 1) (n + c))"
    by (simp only: c' E_def levenshtein_sym [of "[y]"])
  also have "\<dots> = min (E + 1) (min (Suc n + 1) (n + c))"
    by arith
  also have "\<dots> = min (levenshtein (a # xs) ([] @ [y]) + 1)
       (min (levenshtein ((a # xs) @ [x]) [] + 1) (levenshtein (a # xs) [] + (if x \<noteq> y then 1 else 0)))"
    by (simp only: levenshtein_Nil2 E_def n_def c_def append_Nil length_append list.size)
  finally show ?case .
next
  case (3 a xs b ys)
  define P1 where "P1 = levenshtein xs ((b # ys) @ [y])"
  define P2 where "P2 = levenshtein (xs @ [x]) (b # ys)"
  define P3 where "P3 = levenshtein xs (b # ys)"
  define Q1 where "Q1 = levenshtein (a # xs) (ys @ [y])"
  define Q2 where "Q2 = levenshtein ((a # xs) @ [x]) ys"
  define Q3 where "Q3 = levenshtein (a # xs) ys"
  define R1 where "R1 = levenshtein xs (ys @ [y])"
  define R2 where "R2 = levenshtein (xs @ [x]) ys"
  define R3 where "R3 = levenshtein xs ys"
  define c :: nat where "c = (if x \<noteq> y then 1 else 0)"
  define d :: nat where "d = (if a \<noteq> b then 1 else 0)"
  have ih1: "levenshtein (xs @ [x]) ((b # ys) @ [y]) = min (P1 + 1) (min (P2 + 1) (P3 + c))"
    unfolding P1_def P2_def P3_def c_def by (rule "3.IH"(1))
  have ih2: "levenshtein ((a # xs) @ [x]) (ys @ [y]) = min (Q1 + 1) (min (Q2 + 1) (Q3 + c))"
    unfolding Q1_def Q2_def Q3_def c_def by (rule "3.IH"(2))
  have ih3: "levenshtein (xs @ [x]) (ys @ [y]) = min (R1 + 1) (min (R2 + 1) (R3 + c))"
    unfolding R1_def R2_def R3_def c_def by (rule "3.IH"(3))
  have hA: "levenshtein (a # xs) ((b # ys) @ [y]) = min (P1 + 1) (min (Q1 + 1) (R1 + d))"
    unfolding P1_def Q1_def R1_def d_def by simp
  have hB: "levenshtein ((a # xs) @ [x]) (b # ys) = min (P2 + 1) (min (Q2 + 1) (R2 + d))"
    unfolding P2_def Q2_def R2_def d_def by simp
  have hC: "levenshtein (a # xs) (b # ys) = min (P3 + 1) (min (Q3 + 1) (R3 + d))"
    unfolding P3_def Q3_def R3_def d_def by simp
  have "levenshtein ((a # xs) @ [x]) ((b # ys) @ [y]) =
     min (levenshtein (xs @ [x]) ((b # ys) @ [y]) + 1)
       (min (levenshtein ((a # xs) @ [x]) (ys @ [y]) + 1)
            (levenshtein (xs @ [x]) (ys @ [y]) + d))"
    unfolding d_def by simp
  also have "\<dots> = min (min (P1 + 1) (min (P2 + 1) (P3 + c)) + 1)
       (min (min (Q1 + 1) (min (Q2 + 1) (Q3 + c)) + 1)
            (min (R1 + 1) (min (R2 + 1) (R3 + c)) + d))"
    by (simp only: ih1 ih2 ih3)
  also have "\<dots> = min (min (P1 + 1) (min (Q1 + 1) (R1 + d)) + 1)
       (min (min (P2 + 1) (min (Q2 + 1) (R2 + d)) + 1)
            (min (P3 + 1) (min (Q3 + 1) (R3 + d)) + c))"
    by (simp only: min_add_distrib_left min_add_distrib_right min.assoc min.commute min.left_commute
          add.assoc add.commute add.left_commute)
  also have "\<dots> = min (levenshtein (a # xs) ((b # ys) @ [y]) + 1)
       (min (levenshtein ((a # xs) @ [x]) (b # ys) + 1)
            (levenshtein (a # xs) (b # ys) + (if x \<noteq> y then 1 else 0)))"
    by (simp only: hA hB hC c_def)
  finally show ?case .
qed

lemma levenshtein_rev: "levenshtein (rev xs) (rev ys) = levenshtein xs ys"
proof (induction xs ys rule: levenshtein.induct)
  case (1 ys)
  then show ?case by simp
next
  case (2 x xs)
  then show ?case by (simp add: levenshtein_Nil2)
next
  case (3 x xs y ys)
  have "levenshtein (rev (x # xs)) (rev (y # ys)) = levenshtein (rev xs @ [x]) (rev ys @ [y])" by simp
  also have "\<dots> = min (levenshtein (rev xs) (rev (y # ys)) + 1)
       (min (levenshtein (rev (x # xs)) (rev ys) + 1) (levenshtein (rev xs) (rev ys) + (if x \<noteq> y then 1 else 0)))"
    by (simp only: levenshtein_snoc rev.simps)
  also have "\<dots> = levenshtein (x # xs) (y # ys)"
    by (simp only: "3.IH" levenshtein.simps)
  finally show ?case .
qed

section \<open>Fuzzy deduplicator: properties of the similarity\<close>

lemma levenshtein_same: "levenshtein xs xs = 0"
  by (induction xs) auto

lemma levenshtein_distance_levenshtein: "levenshtein_distance s1 s2 = levenshtein s1 s2"
  by (simp add: levenshtein_distance_eq levenshtein_rev)

lemma levenshtein_ratio_formula:
  "levenshtein_ratio s1 s2 = 1 - of_nat (levenshtein s1 s2) / of_nat (max (length s1) (length s2))"
proof (cases "s1 = s2")
  case True
  then show ?thesis by (simp add: levenshtein_ratio_def levenshtein_same)
next
  case False
  show ?thesis
  proof (cases "length s1 < length s2")
    case True
    with False show ?thesis
      by (auto simp: levenshtein_ratio_def Let_def levenshtein_distance_levenshtein
            levenshtein_sym [of s2 s1] max.commute)
  next
    case ge: False
    with False have "s1 \<noteq> []" by auto
    with False ge show ?thesis
      by (auto simp: levenshtein_ratio_def Let_def levenshtein_distance_levenshtein)
  qed
qed

text \<open>
  Claim C10. For all strings, well-formed addresses or not, \<open>calculate_email_similarity\<close>
  gives the same value for both orders of its arguments, and the value lies between 0 and 1.
\<close>

theorem calculate_email_similarity_symmetric_bounded:
  "calculate_email_similarity a b = calculate_email_similarity b a
   \<and> 0 \<le> calculate_email_similarity a b \<and> calculate_email_similarity a b \<le> 1"
  using calculate_email_similarity_sym [of a b] calculate_email_similarity_range [of a b]
  by simp

theorem calculate_email_similarity_symmetric_bounded_witness:
  "calculate_email_similarity ''kitten@x.com'' ''sitting@x.com'' = 4 / 7
   \<and> calculate_email_similarity ''sitting@x.com'' ''kitten@x.com'' = 4 / 7
   \<and> calculate_email_similarity ''no at sign'' ''sitting@x.com'' = 0"
proof -
  have v: "calculate_email_similarity ''kitten@x.com'' ''sitting@x.com'' = 4 / 7"
    by code_simp
  have w: "calculate_email_similarity ''no at sign'' ''sitting@x.com'' = 0"
    by code_simp
  show ?thesis
    using calculate_email_similarity_symmetric_bounded [of "''kitten@x.com''" "''sitting@x.com''"] v w
    by simp
qed

text \<open>
  Claim C8. The three reference pairs: after normalisation the first pair has similarity at
  least 0.85 and the deduplicator puts it into one group; the second pair scores below 0.85
  and stays in two groups; the third pair has different domains and scores 0. In general,
  for two addresses with the same (lower-cased) domain, local parts \<open>u1\<close> and \<open>u2\<close> score
  1 or 0 by equality as soon as one of them has at most three characters, and otherwise
  \<open>1 - levenshtein u1 u2 / max (length u1) (length u2)\<close>, raised by 0.15 and capped at 1
  when one local part is a prefix of the other.
\<close>

theorem email_similarity_reference_and_formula:
  "calculate_email_similarity (normalize_email ''john.doe+promo@gmail.com'')
       (normalize_email ''johndoe@gmail.com'') \<ge> 85 / 100
   \<and> length (group_emails (85 / 100) [''john.doe+promo@gmail.com'', ''johndoe@gmail.com'']
         [''john.doe+promo@gmail.com'', ''johndoe@gmail.com''] []) = 1
   \<and> calculate_email_similarity (normalize_email ''abc@x.com'') (normalize_email ''xyz@x.com'')
         < 85 / 100
   \<and> length (group_emails (85 / 100) [''abc@x.com'', ''xyz@x.com'']
         [''abc@x.com'', ''xyz@x.com''] []) = 2
   \<and> calculate_email_similarity (normalize_email ''a@x.com'') (normalize_email ''a@y.com'') = 0
   \<and> (CHR ''@'' \<in> set e1 \<and> CHR ''@'' \<in> set e2
        \<and> split_first (CHR ''@'') (lower e1) = (u1, d)
        \<and> split_first (CHR ''@'') (lower e2) = (u2, d) \<longrightarrow>
        calculate_email_similarity e1 e2 =
          (if length u1 \<le> 3 \<or> length u2 \<le> 3 then (if u1 = u2 then 1 else 0)
           else
             let r = 1 - of_nat (levenshtein u1 u2) / of_nat (max (length u1) (length u2))
             in if startswith u1 u2 \<or> startswith u2 u1 then min 1 (r + 15 / 100) else r))"
proof (intro conjI impI)
  show "calculate_email_similarity (normalize_email ''john.doe+promo@gmail.com'')
       (normalize_email ''johndoe@gmail.com'') \<ge> 85 / 100"
    by code_simp
  show "length (group_emails (85 / 100) [''john.doe+promo@gmail.com'', ''johndoe@gmail.com'']
         [''john.doe+promo@gmail.com'', ''johndoe@gmail.com''] []) = 1"
    by code_simp
  show "calculate_email_similarity (normalize_email ''abc@x.com'') (normalize_email ''xyz@x.com'')
         < 85 / 100"
    by code_simp
  show "length (group_emails (85 / 100) [''abc@x.com'', ''xyz@x.com'']
         [''abc@x.com'', ''xyz@x.com''] []) = 2"
    by code_simp
  show "calculate_email_similarity (normalize_email ''a@x.com'') (normalize_email ''a@y.com'') = 0"
    by code_simp
next
  assume a: "CHR ''@'' \<in> set e1 \<and> CHR ''@'' \<in> set e2
        \<and> split_first (CHR ''@'') (lower e1) = (u1, d)
        \<and> split_first (CHR ''@'') (lower e2) = (u2, d)"
  show "calculate_email_similarity e1 e2 =
          (if length u1 \<le> 3 \<or> length u2 \<le> 3 then (if u1 = u2 then 1 else 0)
           else
             let r = 1 - of_nat (levenshtein u1 u2) / of_nat (max (length u1) (length u2))
             in if startswith u1 u2 \<or> startswith u2 u1 then min 1 (r + 15 / 100) else r)"
  proof (cases "e1 = e2")
    case True
    with a have "(u1, d) = (u2, d)" by metis
    then have u: "u1 = u2" by simp
    have "startswith u2 u2" by (simp add: startswith_def)
    with True u show ?thesis
      by (simp add: calculate_email_similarity_def Let_def levenshtein_same)
  next
    case False
    with a show ?thesis
      by (simp add: calculate_email_similarity_def Let_def levenshtein_ratio_formula)
  qed
qed

theorem email_similarity_reference_and_formula_witness:
  "calculate_email_similarity ''abcdef@x.com'' ''abcde@x.com'' = 59 / 60"
proof -
  have h: "CHR ''@'' \<in> set ''abcdef@x.com'' \<and> CHR ''@'' \<in> set ''abcde@x.com''
        \<and> split_first (CHR ''@'') (lower ''abcdef@x.com'') = (''abcdef'', ''x.com'')
        \<and> split_first (CHR ''@'') (lower ''abcde@x.com'') = (''abcde'', ''x.com'')"
    by code_simp
  have l: "levenshtein ''abcdef'' ''abcde'' = 1" by code_simp
  have p: "startswith ''abcdef'' ''abcde''" by code_simp
  from email_similarity_reference_and_formula
       [of "''abcdef@x.com''" "''abcde@x.com''" "''abcdef''" "''x.com''" "''abcde''"] h
  have "calculate_email_similarity ''abcdef@x.com'' ''abcde@x.com'' =
          (if length ''abcdef'' \<le> 3 \<or> length ''abcde'' \<le> 3 then (if ''abcdef'' = ''abcde'' then 1 else 0)
           else
             let r = 1 - of_nat (levenshtein ''abcdef'' ''abcde'') / of_nat (max (length ''abcdef'') (length ''abcde''))
             in if startswith ''abcdef'' ''abcde'' \<or> startswith ''abcde'' ''abcdef'' then min 1 (r + 15 / 100) else r)"
    by blast
  then show ?thesis using l p by (simp add: Let_def)
qed

section \<open>Fuzzy deduplicator: a second pass\<close>

definition similar :: "rat \<Rightarrow> string \<Rightarrow> string \<Rightarrow> bool" where
  "similar thr a b = (calculate_email_similarity (normalize_email a) (normalize_email b) \<ge> thr)"

lemma collect_similar_props:
  "collect_similar thr e es grp used = (grp', used') \<Longrightarrow>
     \<exists>new. grp' = grp @ new \<and> distinct new \<and> set new \<inter> set used = {}
        \<and> set used' = set used \<union> set new \<and> set new \<subseteq> set es"
proof (induction es arbitrary: grp used)
  case Nil
  then show ?case by simp
next
  case (Cons other rest)
  show ?case
  proof (cases "other \<noteq> e \<and> other \<notin> set used
         \<and> calculate_email_similarity (normalize_email e) (normalize_email other) \<ge> thr")
    case True
    with Cons.prems have "collect_similar thr e rest (grp @ [other]) (other # used) = (grp', used')"
      by simp
    from Cons.IH [OF this] obtain new where
      new: "grp' = (grp @ [other]) @ new" "distinct new" "set new \<inter> set (other # used) = {}"
        "set used' = set (other # used) \<union> set new" "set new \<subseteq> set rest" by blast
    from new True show ?thesis
      by (intro exI [of _ "other # new"]) auto
  next
    case False
    with Cons.prems have "collect_similar thr e rest grp used = (grp', used')"
      by auto
    from Cons.IH [OF this] show ?thesis by auto
  qed
qed

lemma collect_similar_none:
  assumes "\<forall>x\<in>set es. x \<noteq> e \<and> x \<notin> set used \<longrightarrow> \<not> similar thr e x"
  shows "collect_similar thr e es grp used = (grp, used)"
  using assms by (induction es) (auto simp: similar_def)

lemma group_emails_props:
  "distinct (concat (group_emails thr emails rest used))
   \<and> set (concat (group_emails thr emails rest used)) \<inter> set used = {}
   \<and> set (concat (group_emails thr emails rest used)) \<subseteq> set emails \<union> set rest
   \<and> [] \<notin> set (group_emails thr emails rest used)"
proof (induction rest arbitrary: used)
  case Nil
  then show ?case by simp
next
  case (Cons email rest)
  show ?case
  proof (cases "email \<in> set used")
    case True
    with Cons.IH [of used] show ?thesis by auto
  next
    case False
    obtain grp used' where c: "collect_similar thr email emails [email] (email # used) = (grp, used')"
      by force
    from collect_similar_props [OF c] obtain new where
      new: "grp = [email] @ new" "distinct new" "set new \<inter> set (email # used) = {}"
        "set used' = set (email # used) \<union> set new" "set new \<subseteq> set emails" by blast
    have ge: "group_emails thr emails (email # rest) used = grp # group_emails thr emails rest used'"
      using False c by simp
    define gs where "gs = group_emails thr emails rest used'"
    define G where "G = set (concat gs)"
    from Cons.IH [of used'] have ih1: "distinct (concat gs)" unfolding gs_def by blast
    from Cons.IH [of used'] have ih2: "G \<inter> set used' = {}" unfolding G_def gs_def by blast
    from Cons.IH [of used'] have ih3: "G \<subseteq> set emails \<union> set rest" unfolding G_def gs_def by blast
    from Cons.IH [of used'] have ih4: "[] \<notin> set gs" unfolding gs_def by blast
    have d: "distinct grp" using new(1,2,3) by auto
    have g_used: "set grp \<subseteq> set used'" using new(1,4) by auto
    have g_dis: "set grp \<inter> set used = {}" using new(1,3) False by auto
    have u_sub: "set used \<subseteq> set used'" using new(4) by auto
    have g_sub: "set grp \<subseteq> set emails \<union> set (email # rest)" using new(1,5) by auto
    have g_ne: "grp \<noteq> []" using new(1) by simp
    have c1: "distinct (concat (grp # gs))"
      using ih1 d ih2 g_used unfolding G_def by (simp only: concat.simps distinct_append) blast
    have c2: "set (concat (grp # gs)) \<inter> set used = {}"
      using ih2 g_dis u_sub unfolding G_def by (simp only: concat.simps set_append) blast
    have c3: "set (concat (grp # gs)) \<subseteq> set emails \<union> set (email # rest)"
      using ih3 g_sub unfolding G_def by (simp only: concat.simps set_append list.set) blast
    have c4: "[] \<notin> set (grp # gs)" using ih4 g_ne by auto
    show ?thesis unfolding ge gs_def [symmetric] using c1 c2 c3 c4 by (intro conjI)
  qed
qed

lemma min_by_mem: "min_by key best xs \<in> set (best # xs)"
  by (induction xs arbitrary: best) auto

lemma select_best_mem: "g \<noteq> [] \<Longrightarrow> select_best common g \<in> set g"
proof (cases g)
  case Nil
  assume "g \<noteq> []"
  with Nil show ?thesis by simp
next
  case (Cons e es)
  then show ?thesis using min_by_mem [of "group_key common" e es]
    by (cases es) auto
qed

lemma distinct_map_choice:
  "distinct (concat gs) \<Longrightarrow> [] \<notin> set gs \<Longrightarrow> (\<And>g. g \<in> set gs \<Longrightarrow> f g \<in> set g) \<Longrightarrow>
   distinct (map f gs)"
proof (induction gs)
  case Nil
  then show ?case by simp
next
  case (Cons g gs)
  have "f g \<notin> f ` set gs"
  proof
    assume "f g \<in> f ` set gs"
    then obtain h where h: "h \<in> set gs" "f g = f h" by auto
    from Cons.prems(3) [of g] have "f g \<in> set g" by simp
    moreover from Cons.prems(3) [of h] h have "f g \<in> set h" by simp
    ultimately show False using Cons.prems(1) h(1) by auto
  qed
  moreover have "distinct (map f gs)"
    using Cons.IH Cons.prems by auto
  ultimately show ?case by simp
qed

lemma representatives_distinct:
  "distinct (map (select_best c) (group_emails thr emails emails []))"
proof -
  define gs where "gs = group_emails thr emails emails []"
  from group_emails_props [of thr emails emails "[]"]
  have dc: "distinct (concat gs)" and ne: "[] \<notin> set gs" unfolding gs_def by blast+
  have "distinct (map (select_best c) gs)"
  proof (rule distinct_map_choice [OF dc ne])
    fix g assume "g \<in> set gs"
    with ne have "g \<noteq> []" by auto
    then show "select_best c g \<in> set g" by (rule select_best_mem)
  qed
  then show ?thesis unfolding gs_def .
qed

lemma representatives_subset:
  "set (map (select_best c) (group_emails thr emails emails [])) \<subseteq> set emails"
proof -
  define gs where "gs = group_emails thr emails emails []"
  from group_emails_props [of thr emails emails "[]"]
  have sub: "set (concat gs) \<subseteq> set emails" and ne: "[] \<notin> set gs" unfolding gs_def by auto
  have "select_best c g \<in> set emails" if "g \<in> set gs" for g
  proof -
    from that ne have "g \<noteq> []" by auto
    from select_best_mem [OF this, of c] that sub show ?thesis by auto
  qed
  then show ?thesis unfolding gs_def by auto
qed

lemma remove_email_duplicates_distinct: "distinct (remove_email_duplicates True thr emails)"
  unfolding remove_email_duplicates_def using representatives_distinct by simp

lemma remove_email_duplicates_subset: "set (remove_email_duplicates True thr emails) \<subseteq> set emails"
  unfolding remove_email_duplicates_def using representatives_subset by simp

lemma group_emails_singletons:
  assumes "distinct rest" "set rest \<inter> set used = {}" "set rest \<union> set used = set emails"
    and "\<forall>a\<in>set emails. \<forall>b\<in>set emails. a \<noteq> b \<longrightarrow> \<not> similar thr a b"
  shows "group_emails thr emails rest used = map (\<lambda>e. [e]) rest"
  using assms(1-3)
proof (induction rest arbitrary: used)
  case Nil
  then show ?case by simp
next
  case (Cons email rest)
  from Cons.prems have nu: "email \<notin> set used" and em: "email \<in> set emails" by auto
  have "\<forall>x\<in>set emails. x \<noteq> email \<and> x \<notin> set (email # used) \<longrightarrow> \<not> similar thr email x"
    using assms(4) em by auto
  then have c: "collect_similar thr email emails [email] (email # used) = ([email], email # used)"
    by (rule collect_similar_none)
  have "group_emails thr emails rest (email # used) = map (\<lambda>e. [e]) rest"
    using Cons.prems by (intro Cons.IH) auto
  with nu c show ?case by simp
qed

lemma remove_email_duplicates_fixed:
  assumes "distinct ys"
    and "\<forall>a\<in>set ys. \<forall>b\<in>set ys. a \<noteq> b \<longrightarrow> \<not> similar thr a b"
  shows "remove_email_duplicates True thr ys = ys"
proof -
  have "group_emails thr ys ys [] = map (\<lambda>e. [e]) ys"
    using assms by (intro group_emails_singletons) auto
  then show ?thesis by (simp add: remove_email_duplicates_def comp_def)
qed

lemma filter_similar_emails_raises:
  "filter_similar_emails (85 / 100) [''abcdef@x.com'', ''abcde@x.com'', ''abcd@x.com'']
     = Inl (AttributeError ''common_domains'')"
  by code_simp

text \<open>
  Claim C9, as stated, fails. The pass of \<open>remove_email_duplicates\<close> groups by similarity
  to the seed only and may choose a representative other than the seed: from
  \<open>abcdef@x.com\<close>, \<open>abcde@x.com\<close>, \<open>abcd@x.com\<close> the first pass keeps \<open>abcde@x.com\<close> (for the
  group of the seed \<open>abcdef@x.com\<close>) and \<open>abcd@x.com\<close>, and a second pass merges these two.
\<close>

theorem dedup_idempotence_counterexample:
  "set (remove_email_duplicates True (85 / 100)
         (remove_email_duplicates True (85 / 100)
            [''abcdef@x.com'', ''abcde@x.com'', ''abcd@x.com'']))
   \<noteq> set (remove_email_duplicates True (85 / 100)
            [''abcdef@x.com'', ''abcde@x.com'', ''abcd@x.com''])"
proof -
  have p1: "remove_email_duplicates True (85 / 100)
            [''abcdef@x.com'', ''abcde@x.com'', ''abcd@x.com''] = [''abcde@x.com'', ''abcd@x.com'']"
    by code_simp
  have p2: "remove_email_duplicates True (85 / 100) [''abcde@x.com'', ''abcd@x.com'']
            = [''abcd@x.com'']"
    by code_simp
  show ?thesis unfolding p1 p2 by simp
qed

text \<open>
  Claim C9, amended. A second pass never brings in an address that the first pass did not
  return, the output of a pass has no repeated address, and the second pass returns the
  output of the first unchanged whenever no two different representatives of the first pass
  have a normalised similarity at or above the threshold.
\<close>

theorem dedup_second_pass:
  "set (remove_email_duplicates True thr (remove_email_duplicates True thr xs))
     \<subseteq> set (remove_email_duplicates True thr xs)
   \<and> distinct (remove_email_duplicates True thr xs)
   \<and> ((\<forall>a\<in>set (remove_email_duplicates True thr xs).
         \<forall>b\<in>set (remove_email_duplicates True thr xs).
           a \<noteq> b \<longrightarrow> calculate_email_similarity (normalize_email a) (normalize_email b) < thr)
        \<longrightarrow> remove_email_duplicates True thr (remove_email_duplicates True thr xs)
              = remove_email_duplicates True thr xs)"
proof (intro conjI impI)
  show "set (remove_email_duplicates True thr (remove_email_duplicates True thr xs))
     \<subseteq> set (remove_email_duplicates True thr xs)"
    by (rule remove_email_duplicates_subset)
  show d: "distinct (remove_email_duplicates True thr xs)"
    by (rule remove_email_duplicates_distinct)
  assume "\<forall>a\<in>set (remove_email_duplicates True thr xs).
         \<forall>b\<in>set (remove_email_duplicates True thr xs).
           a \<noteq> b \<longrightarrow> calculate_email_similarity (normalize_email a) (normalize_email b) < thr"
  then have "\<forall>a\<in>set (remove_email_duplicates True thr xs).
         \<forall>b\<in>set (remove_email_duplicates True thr xs). a \<noteq> b \<longrightarrow> \<not> similar thr a b"
    unfolding similar_def by (simp add: not_le)
  with d show "remove_email_duplicates True thr (remove_email_duplicates True thr xs)
              = remove_email_duplicates True thr xs"
    by (rule remove_email_duplicates_fixed)
qed

theorem dedup_second_pass_witness:
  "remove_email_duplicates True (85 / 100) [''abc@x.com'', ''xyz@x.com'']
     = [''abc@x.com'', ''xyz@x.com'']"
proof -
  have p: "remove_email_duplicates True (85 / 100) [''abc@x.com'', ''xyz@x.com'', ''abc@x.com'']
            = [''abc@x.com'', ''xyz@x.com'']"
    by code_simp
  have s1: "calculate_email_similarity (normalize_email ''abc@x.com'') (normalize_email ''xyz@x.com'')
             < 85 / 100" by code_simp
  have s2: "calculate_email_similarity (normalize_email ''xyz@x.com'') (normalize_email ''abc@x.com'')
             < 85 / 100" by code_simp
  have h: "\<forall>a\<in>set [''abc@x.com'', ''xyz@x.com'']. \<forall>b\<in>set [''abc@x.com'', ''xyz@x.com''].
           a \<noteq> b \<longrightarrow> calculate_email_similarity (normalize_email a) (normalize_email b) < 85 / 100"
    using s1 s2 by simp
  from dedup_second_pass [of "85 / 100" "[''abc@x.com'', ''xyz@x.com'', ''abc@x.com'']"]
  show ?thesis unfolding p using h by blast
qed

section \<open>Credential pool and quota tracker (\<open>YouTubeChannelScraper\<close>)\<close>

text \<open>
  The fields of the scraper that the credential selection reads and writes. The dictionaries
  are maps, read with \<open>dict.get(key, 0)\<close>. The wall clock is part of the state: \<open>now\<close> is
  the value of \<open>time.time()\<close>, \<open>time.sleep d\<close> advances it by \<open>d\<close>, and the date is the
  number of the day that \<open>now\<close> falls on (time zones are not modelled). The attribute
  \<open>daily_quota_limit\<close> is set to 10000 by the constructor and never assigned again.
  \<open>choice\<close> stands for the random source of \<open>random.choice\<close>.
\<close>

record scraper =
  api_keys :: "string list"
  api_usage_count :: "string \<rightharpoonup> int"
  api_last_used :: "string \<rightharpoonup> rat"
  api_errors :: "string \<rightharpoonup> int"
  daily_quota_usage :: "string \<rightharpoonup> int"
  last_quota_reset_day :: int
  min_api_cooldown :: rat
  now :: rat
  choice :: nat

definition daily_quota_limit :: int where
  "daily_quota_limit = 10000"

definition date_of :: "rat \<Rightarrow> int" where
  "date_of t = \<lfloor>t / 86400\<rfloor>"

definition get0 :: "('k \<rightharpoonup> 'v::zero) \<Rightarrow> 'k \<Rightarrow> 'v" where
  "get0 m k = (case m k of None \<Rightarrow> 0 | Some v \<Rightarrow> v)"

definition sleep :: "scraper \<Rightarrow> rat \<Rightarrow> scraper" where
  "sleep s d = s\<lparr>now := now s + d\<rparr>"

definition reset_daily_quota_usage :: "scraper \<Rightarrow> scraper" where
  "reset_daily_quota_usage s =
     (let today = date_of (now s)
      in if last_quota_reset_day s \<noteq> today
         then s\<lparr>daily_quota_usage := (\<lambda>key. if key \<in> set (api_keys s) then Some 0 else None),
                last_quota_reset_day := today\<rparr>
         else s)"

definition track_api_usage :: "scraper \<Rightarrow> string \<Rightarrow> int \<Rightarrow> int \<times> scraper" where
  "track_api_usage s api_key units_used =
     (let s1 = reset_daily_quota_usage s;
          s2 = s1\<lparr>api_usage_count := (api_usage_count s1)(api_key \<mapsto> get0 (api_usage_count s1) api_key + 1)\<rparr>;
          s3 = s2\<lparr>daily_quota_usage := (daily_quota_usage s2)(api_key \<mapsto> get0 (daily_quota_usage s2) api_key + units_used)\<rparr>
      in (get0 (daily_quota_usage s3) api_key, s3))"

text \<open>The keys that pass the cooldown filter at the time \<open>now s\<close>.\<close>

definition available_keys :: "scraper \<Rightarrow> string list" where
  "available_keys s =
     filter (\<lambda>key. now s - get0 (api_last_used s) key \<ge> min_api_cooldown s) (api_keys s)"

text \<open>The three figures that the selection compares: recorded errors, quota-used ratio,
  usage count. Pairs are ordered lexicographically.\<close>

definition key_rank :: "scraper \<Rightarrow> string \<Rightarrow> int \<times> rat \<times> int" where
  "key_rank s key =
     (get0 (api_errors s) key,
      of_int (get0 (daily_quota_usage s) key) / of_int daily_quota_limit,
      get0 (api_usage_count s) key)"

text \<open>
  The selection loop. The accumulator is \<open>None\<close> while \<open>best_key\<close> is \<open>None\<close> and the three
  minima are infinite, so that the first key is always taken.
\<close>

fun choose_best ::
  "scraper \<Rightarrow> string list \<Rightarrow> (string \<times> int \<times> rat \<times> int) option
     \<Rightarrow> (string \<times> int \<times> rat \<times> int) option" where
  "choose_best s [] best = best"
| "choose_best s (key # keys) best =
     (let errors = get0 (api_errors s) key;
          usages = get0 (api_usage_count s) key;
          quota_used = get0 (daily_quota_usage s) key;
          quota_ratio = of_int quota_used / of_int daily_quota_limit
      in case best of
           None \<Rightarrow> choose_best s keys (Some (key, errors, quota_ratio, usages))
         | Some (best_key, min_errors, min_quota_ratio, min_usage) \<Rightarrow>
             if errors < min_errors
                \<or> (errors = min_errors \<and> quota_ratio < min_quota_ratio)
                \<or> (errors = min_errors \<and> quota_ratio = min_quota_ratio \<and> usages < min_usage)
             then choose_best s keys (Some (key, errors, quota_ratio, usages))
             else choose_best s keys best)"

text \<open>The end of \<open>get_next_api_key\<close>: the fallback for a missing or empty \<open>best_key\<close> and
  the update of the statistics.\<close>

definition mark_used :: "scraper \<Rightarrow> rat \<Rightarrow> string \<Rightarrow> string \<times> scraper" where
  "mark_used s current_time best_key =
     (best_key,
      s\<lparr>api_usage_count := (api_usage_count s)(best_key \<mapsto> get0 (api_usage_count s) best_key + 1),
        api_last_used := (api_last_used s)(best_key \<mapsto> current_time)\<rparr>)"

definition pick_key :: "scraper \<Rightarrow> string list \<Rightarrow> string" where
  "pick_key s available =
     (let best_key = (case choose_best s available None of None \<Rightarrow> [] | Some (k, _) \<Rightarrow> k)
      in if best_key = [] \<and> api_keys s \<noteq> []
         then api_keys s ! (choice s mod length (api_keys s))
         else best_key)"

text \<open>The time to wait when every key is cooling down.\<close>

definition sleep_time_of :: "scraper \<Rightarrow> rat" where
  "sleep_time_of s =
     (let next_available_time =
            Min (set (map (\<lambda>key. get0 (api_last_used s) key) (api_keys s))) + min_api_cooldown s
      in max 0 (next_available_time - now s))"

function get_next_api_key :: "scraper \<Rightarrow> py_error + (string \<times> scraper)" where
  "get_next_api_key s =
     (if api_keys s = [] then Inl (ValueError ''No API keys available.'')
      else
        let current_time = now s;
            s1 = reset_daily_quota_usage s
        in if available_keys s1 = []
           then
             let sleep_time = sleep_time_of s1
             in get_next_api_key (if sleep_time > 0 then sleep s1 sleep_time else s1)
           else Inr (mark_used s1 current_time (pick_key s1 (available_keys s1))))"
  by pat_completeness auto

text \<open>The recursive call happens only after a sleep that makes the key with the oldest
  use available, so the function is total.\<close>

lemma reset_keeps [simp]:
  "api_keys (reset_daily_quota_usage s) = api_keys s"
  "api_last_used (reset_daily_quota_usage s) = api_last_used s"
  "min_api_cooldown (reset_daily_quota_usage s) = min_api_cooldown s"
  "now (reset_daily_quota_usage s) = now s"
  "api_errors (reset_daily_quota_usage s) = api_errors s"
  "api_usage_count (reset_daily_quota_usage s) = api_usage_count s"
  "choice (reset_daily_quota_usage s) = choice s"
  by (simp_all add: reset_daily_quota_usage_def Let_def)

lemma available_keys_reset [simp]: "available_keys (reset_daily_quota_usage s) = available_keys s"
  by (simp add: available_keys_def)

lemma sleep_time_positive:
  assumes "api_keys s \<noteq> []" "available_keys s = []"
  shows "sleep_time_of s = Min (set (map (\<lambda>key. get0 (api_last_used s) key) (api_keys s))) + min_api_cooldown s - now s"
    and "0 < sleep_time_of s"
proof -
  let ?L = "set (map (\<lambda>key. get0 (api_last_used s) key) (api_keys s))"
  have fin: "finite ?L" and ne: "?L \<noteq> {}" using assms(1) by auto
  from Min_in [OF fin ne] obtain k where k: "k \<in> set (api_keys s)" "Min ?L = get0 (api_last_used s) k"
    by auto
  from assms(2) k(1) have "\<not> now s - get0 (api_last_used s) k \<ge> min_api_cooldown s"
    by (auto simp: available_keys_def filter_empty_conv)
  then have pos: "0 < Min ?L + min_api_cooldown s - now s" using k(2) by simp
  then show "sleep_time_of s = Min ?L + min_api_cooldown s - now s"
    by (simp add: sleep_time_of_def Let_def)
  with pos show "0 < sleep_time_of s" by simp
qed

lemma available_after_sleep:
  assumes "api_keys s \<noteq> []" "available_keys s = []"
  shows "available_keys (sleep s (sleep_time_of s)) \<noteq> []"
proof -
  let ?L = "set (map (\<lambda>key. get0 (api_last_used s) key) (api_keys s))"
  have fin: "finite ?L" and ne: "?L \<noteq> {}" using assms(1) by auto
  from Min_in [OF fin ne] obtain k where k: "k \<in> set (api_keys s)" "Min ?L = get0 (api_last_used s) k"
    by auto
  from sleep_time_positive(1) [OF assms] k(2)
  have "now (sleep s (sleep_time_of s)) - get0 (api_last_used s) k = min_api_cooldown s"
    by (simp add: sleep_def)
  with k(1) have "k \<in> set (available_keys (sleep s (sleep_time_of s)))"
    by (simp add: available_keys_def sleep_def)
  then show ?thesis by auto
qed

termination get_next_api_key
proof (relation "measure (\<lambda>s. if api_keys s \<noteq> [] \<and> available_keys s = [] then 1 else 0)")
  show "wf (measure (\<lambda>s. if api_keys s \<noteq> [] \<and> available_keys s = [] then 1 else 0))" by simp
next
  fix s :: scraper and x xa xb
  assume a: "api_keys s \<noteq> []" "x = now s" "xa = reset_daily_quota_usage s"
    "available_keys xa = []" "xb = sleep_time_of xa"
  from a have k: "api_keys xa \<noteq> []" and av: "available_keys xa = []" by simp_all
  from sleep_time_positive(2) [OF k av] have pos: "0 < xb" using a(5) by simp
  from available_after_sleep [OF k av] have "available_keys (sleep xa xb) \<noteq> []" using a(5) by simp
  moreover have "available_keys s = []" using a by simp
  ultimately show "(if 0 < xb then sleep xa xb else xa, s)
       \<in> measure (\<lambda>s. if api_keys s \<noteq> [] \<and> available_keys s = [] then 1 else 0)"
    using pos a(1) by simp
qed

declare get_next_api_key.simps [simp del]

text \<open>The state in which the selection takes place: the state itself when a key is
  available, the state after the sleep otherwise.\<close>

definition wait_until_available :: "scraper \<Rightarrow> scraper" where
  "wait_until_available s =
     (if available_keys s = [] then sleep (reset_daily_quota_usage s) (sleep_time_of s) else s)"

section \<open>Quota ledger of the validator (\<open>YouTubeAPIValidator\<close>)\<close>

text \<open>
  An entry of the history of a key. \<open>timestamp\<close> is the time point that the ISO string of
  the entry denotes, \<open>None\<close> for a string that \<open>datetime.fromisoformat\<close> rejects. Of the
  information stored for a key only the history and the usage counter are modelled.
\<close>

record history_entry =
  timestamp :: "rat option"
  entry_status :: string
  units_used :: int

record key_info =
  history :: "history_entry list"
  usage_count :: int

type_synonym quota_database = "string \<rightharpoonup> key_info"

text \<open>The loop of \<open>get_used_quota\<close>; an entry whose time stamp does not parse raises
  \<open>ValueError\<close> inside the \<open>try\<close> and is skipped.\<close>

fun sum_today :: "int \<Rightarrow> history_entry list \<Rightarrow> int \<Rightarrow> int" where
  "sum_today today [] today_usage = today_usage"
| "sum_today today (entry # rest) today_usage =
     (case timestamp entry of
        None \<Rightarrow> sum_today today rest today_usage
      | Some t \<Rightarrow>
          if date_of t = today then sum_today today rest (today_usage + units_used entry)
          else sum_today today rest today_usage)"

definition get_used_quota :: "quota_database \<Rightarrow> rat \<Rightarrow> string \<Rightarrow> int" where
  "get_used_quota db current api_key =
     (case db api_key of
        None \<Rightarrow> 0
      | Some info \<Rightarrow> sum_today (date_of current) (history info) 0)"

text \<open>\<open>update_quota_info\<close> at the time \<open>current\<close>, for a \<open>quota_info\<close> with the given status
  and units; the history keeps its last 50 entries.\<close>

definition update_quota_info ::
  "quota_database \<Rightarrow> rat \<Rightarrow> string \<Rightarrow> string \<Rightarrow> int \<Rightarrow> quota_database" where
  "update_quota_info db current api_key status units =
     (let info = (case db api_key of None \<Rightarrow> \<lparr>history = [], usage_count = 0\<rparr> | Some i \<Rightarrow> i);
          entry = \<lparr>timestamp = Some current, entry_status = status, units_used = units\<rparr>;
          h = history info @ [entry];
          h' = (if length h > 50 then drop (length h - 50) h else h)
      in db(api_key \<mapsto> info\<lparr>usage_count := usage_count info + 1, history := h'\<rparr>))"

text \<open>The entries of a key that fall on the day of \<open>current\<close>.\<close>

definition on_day :: "rat \<Rightarrow> history_entry \<Rightarrow> bool" where
  "on_day current entry =
     (case timestamp entry of None \<Rightarrow> False | Some t \<Rightarrow> date_of t = date_of current)"

section \<open>Credential selection: cooldown and choice of the best key\<close>

lemma sleep_time_of_reset [simp]: "sleep_time_of (reset_daily_quota_usage s) = sleep_time_of s"
  by (simp add: sleep_time_of_def)

lemma get_next_api_key_direct:
  assumes "api_keys s \<noteq> []" "available_keys s \<noteq> []"
  shows "get_next_api_key s =
     Inr (mark_used (reset_daily_quota_usage s) (now s)
            (pick_key (reset_daily_quota_usage s) (available_keys s)))"
  using assms by (subst get_next_api_key.simps) (simp add: Let_def)

lemma get_next_api_key_wait:
  assumes "api_keys s \<noteq> []" "available_keys s = []"
  shows "get_next_api_key s = get_next_api_key (sleep (reset_daily_quota_usage s) (sleep_time_of s))"
proof -
  from sleep_time_positive(2) [OF assms] have "0 < sleep_time_of s" .
  then show ?thesis using assms
    by (subst get_next_api_key.simps) (simp add: Let_def)
qed

lemma api_keys_sleep [simp]: "api_keys (sleep s d) = api_keys s"
  by (simp add: sleep_def)

lemma wait_until_available_keys [simp]: "api_keys (wait_until_available s) = api_keys s"
  by (simp add: wait_until_available_def)

lemma wait_until_available_ready:
  assumes "api_keys s \<noteq> []"
  shows "available_keys (wait_until_available s) \<noteq> []"
proof (cases "available_keys s = []")
  case True
  have k: "api_keys (reset_daily_quota_usage s) \<noteq> []" using assms by simp
  have a: "available_keys (reset_daily_quota_usage s) = []" using True by simp
  from available_after_sleep [OF k a] True show ?thesis
    by (simp add: wait_until_available_def)
next
  case False
  then show ?thesis by (simp add: wait_until_available_def)
qed

lemma get_next_api_key_eq:
  assumes "api_keys s \<noteq> []"
  shows "get_next_api_key s =
     Inr (mark_used (reset_daily_quota_usage (wait_until_available s)) (now (wait_until_available s))
            (pick_key (reset_daily_quota_usage (wait_until_available s))
               (available_keys (wait_until_available s))))"
proof -
  let ?w = "wait_until_available s"
  have kw: "api_keys ?w \<noteq> []" using assms by simp
  have "get_next_api_key s = get_next_api_key ?w"
  proof (cases "available_keys s = []")
    case True
    from get_next_api_key_wait [OF assms True] True show ?thesis
      by (simp add: wait_until_available_def)
  next
    case False
    then show ?thesis by (simp add: wait_until_available_def)
  qed
  also have "\<dots> = Inr (mark_used (reset_daily_quota_usage ?w) (now ?w)
            (pick_key (reset_daily_quota_usage ?w) (available_keys ?w)))"
    using kw wait_until_available_ready [OF assms] by (rule get_next_api_key_direct)
  finally show ?thesis .
qed

lemma choose_best_step:
  "choose_best s (k # ks) (Some (b, key_rank s b))
     = choose_best s ks (Some (if key_rank s k < key_rank s b then (k, key_rank s k)
                                else (b, key_rank s b)))"
proof -
  define ek where "ek = get0 (api_errors s) k"
  define qk :: rat where "qk = of_int (get0 (daily_quota_usage s) k) / of_int daily_quota_limit"
  define uk where "uk = get0 (api_usage_count s) k"
  define eb where "eb = get0 (api_errors s) b"
  define qb :: rat where "qb = of_int (get0 (daily_quota_usage s) b) / of_int daily_quota_limit"
  define ub where "ub = get0 (api_usage_count s) b"
  have rk: "key_rank s k = (ek, qk, uk)" by (simp only: key_rank_def ek_def qk_def uk_def)
  have rb: "key_rank s b = (eb, qb, ub)" by (simp only: key_rank_def eb_def qb_def ub_def)
  have step: "choose_best s (k # ks) (Some (b, eb, qb, ub)) =
      (if ek < eb \<or> (ek = eb \<and> qk < qb) \<or> (ek = eb \<and> qk = qb \<and> uk < ub)
       then choose_best s ks (Some (k, ek, qk, uk))
       else choose_best s ks (Some (b, eb, qb, ub)))"
    unfolding ek_def qk_def uk_def
    by (simp only: choose_best.simps Let_def option.case prod.case)
  have cond: "(ek < eb \<or> (ek = eb \<and> qk < qb) \<or> (ek = eb \<and> qk = qb \<and> uk < ub))
      \<longleftrightarrow> (ek, qk, uk) < (eb, qb, ub)"
    by (auto simp: less_prod_def)
  show ?thesis
    by (simp only: rk rb step cond if_distrib [of "\<lambda>x. choose_best s ks (Some x)"])
qed

lemma choose_best_min_by:
  "choose_best s ks (Some (b, key_rank s b))
     = Some (min_by (key_rank s) b ks, key_rank s (min_by (key_rank s) b ks))"
proof (induction ks arbitrary: b)
  case Nil
  then show ?case by simp
next
  case (Cons k ks)
  show ?case
  proof (cases "key_rank s k < key_rank s b")
    case True
    then have "choose_best s (k # ks) (Some (b, key_rank s b)) = choose_best s ks (Some (k, key_rank s k))"
      by (simp only: choose_best_step if_True)
    with True Cons.IH [of k] show ?thesis by (simp del: choose_best.simps)
  next
    case False
    then have "choose_best s (k # ks) (Some (b, key_rank s b)) = choose_best s ks (Some (b, key_rank s b))"
      by (simp only: choose_best_step if_False)
    with False Cons.IH [of b] show ?thesis by (simp del: choose_best.simps)
  qed
qed

lemma choose_best_None:
  "choose_best s (k # ks) None
     = Some (min_by (key_rank s) k ks, key_rank s (min_by (key_rank s) k ks))"
proof -
  have "choose_best s (k # ks) None = choose_best s ks (Some (k, key_rank s k))"
    by (simp only: choose_best.simps Let_def option.case key_rank_def)
  then show ?thesis by (simp only: choose_best_min_by)
qed

lemma min_by_position:
  assumes "pre = ys @ best # zs" "\<forall>y\<in>set ys. key best < key y" "\<forall>z\<in>set zs. key best \<le> key z"
  shows "\<exists>ys' zs'. pre @ xs = ys' @ min_by key best xs # zs'
           \<and> (\<forall>y\<in>set ys'. key (min_by key best xs) < key y)
           \<and> (\<forall>z\<in>set zs'. key (min_by key best xs) \<le> key z)"
  using assms
proof (induction xs arbitrary: pre best ys zs)
  case Nil
  then show ?case by auto
next
  case (Cons x xs)
  show ?case
  proof (cases "key x < key best")
    case True
    have p: "pre @ [x] = pre @ x # []" by simp
    have a: "\<forall>y\<in>set pre. key x < key y"
      using Cons.prems True by auto
    have b: "\<forall>z\<in>set ([]::'a list). key x \<le> key z" by simp
    from Cons.IH [OF p a b] True show ?thesis by simp
  next
    case False
    have p: "pre @ [x] = ys @ best # (zs @ [x])" using Cons.prems(1) by simp
    have b: "\<forall>z\<in>set (zs @ [x]). key best \<le> key z" using Cons.prems(3) False by auto
    from Cons.IH [OF p Cons.prems(2) b] False show ?thesis by simp
  qed
qed

lemma min_by_first_minimum:
  "\<exists>ys zs. k # ks = ys @ min_by key k ks # zs
           \<and> (\<forall>y\<in>set ys. key (min_by key k ks) < key y)
           \<and> (\<forall>z\<in>set zs. key (min_by key k ks) \<le> key z)"
  using min_by_position [of "[k]" "[]" k "[]" key ks] by simp

lemma pick_key_min_by:
  assumes "[] \<notin> set (k # ks)"
  shows "pick_key s (k # ks) = min_by (key_rank s) k ks"
proof -
  have "min_by (key_rank s) k ks \<in> set (k # ks)" by (rule min_by_mem)
  with assms have "min_by (key_rank s) k ks \<noteq> []" by metis
  then show ?thesis by (simp add: pick_key_def choose_best_None Let_def del: choose_best.simps)
qed

lemma wait_until_available_fields [simp]:
  "api_last_used (wait_until_available s) = api_last_used s"
  "min_api_cooldown (wait_until_available s) = min_api_cooldown s"
  by (simp_all add: wait_until_available_def sleep_def)

lemma now_wait_until_available:
  "now (wait_until_available s) = (if available_keys s = [] then now s + sleep_time_of s else now s)"
  by (simp add: wait_until_available_def sleep_def)

lemma mark_used_fields [simp]:
  "fst (mark_used s t k) = k"
  "now (snd (mark_used s t k)) = now s"
  "api_keys (snd (mark_used s t k)) = api_keys s"
  by (simp_all add: mark_used_def)

lemma Min_remaining_wait:
  assumes "ks \<noteq> []"
  shows "Min (set (map (\<lambda>k. f k + c - t) ks)) = Min (set (map f ks)) + c - (t::rat)"
proof (rule Min_eqI)
  show "finite (set (map (\<lambda>k. f k + c - t) ks))" by simp
next
  fix y assume "y \<in> set (map (\<lambda>k. f k + c - t) ks)"
  then obtain k where k: "k \<in> set ks" "y = f k + c - t" by auto
  have "Min (set (map f ks)) \<le> f k" using k(1) by (intro Min_le) auto
  then show "Min (set (map f ks)) + c - t \<le> y" using k(2) by simp
next
  have "Min (set (map f ks)) \<in> set (map f ks)" using assms by (intro Min_in) auto
  then obtain k where "k \<in> set ks" "Min (set (map f ks)) = f k" by auto
  then show "Min (set (map f ks)) + c - t \<in> set (map (\<lambda>k. f k + c - t) ks)" by auto
qed

lemma selected_key:
  assumes "api_keys s \<noteq> []" "[] \<notin> set (api_keys s)"
  shows "\<exists>k ks. available_keys (wait_until_available s) = k # ks
     \<and> get_next_api_key s =
         Inr (mark_used (reset_daily_quota_usage (wait_until_available s)) (now (wait_until_available s))
                (min_by (key_rank (reset_daily_quota_usage (wait_until_available s))) k ks))"
proof -
  let ?w = "wait_until_available s"
  from wait_until_available_ready [OF assms(1)] obtain k ks where av: "available_keys ?w = k # ks"
    by (cases "available_keys ?w") auto
  have "set (available_keys ?w) \<subseteq> set (api_keys s)" by (auto simp: available_keys_def)
  with assms(2) av have ne: "[] \<notin> set (k # ks)" by auto
  from get_next_api_key_eq [OF assms(1)] av pick_key_min_by [OF ne]
  show ?thesis by simp
qed

text \<open>Two pools used as examples: one in which both keys are cooling down, one in which
  all three keys are available.\<close>

definition cooling_pool :: scraper where
  "cooling_pool =
     \<lparr>api_keys = [''k1'', ''k2''], api_usage_count = Map.empty,
      api_last_used = [''k1'' \<mapsto> 100, ''k2'' \<mapsto> 99], api_errors = Map.empty,
      daily_quota_usage = Map.empty, last_quota_reset_day = 0, min_api_cooldown = 2,
      now = 100, choice = 0\<rparr>"

definition ready_pool :: scraper where
  "ready_pool =
     \<lparr>api_keys = [''k1'', ''k2'', ''k3''], api_usage_count = [''k2'' \<mapsto> 4, ''k3'' \<mapsto> 4],
      api_last_used = Map.empty, api_errors = [''k1'' \<mapsto> 1],
      daily_quota_usage = [''k2'' \<mapsto> 100, ''k3'' \<mapsto> 100], last_quota_reset_day = 0,
      min_api_cooldown = 2, now = 100, choice = 0\<rparr>"

text \<open>
  Claim C1. For a pool that is not empty (and holds no empty string, which the loaders of the
  key files exclude), \<open>get_next_api_key\<close> returns a key of the pool whose cooldown window has
  elapsed at the moment of the selection. When some key is available the clock is not
  advanced; when every key is cooling down the clock is advanced by exactly the smallest
  remaining wait among the keys. The clock moves only by the sleeps of the model.
\<close>

theorem get_next_api_key_respects_cooldown:
  assumes "api_keys s \<noteq> []" and "[] \<notin> set (api_keys s)"
  shows "\<exists>key s'. get_next_api_key s = Inr (key, s')
     \<and> key \<in> set (api_keys s)
     \<and> now s' - get0 (api_last_used s) key \<ge> min_api_cooldown s
     \<and> (available_keys s \<noteq> [] \<longrightarrow> now s' = now s)
     \<and> (available_keys s = [] \<longrightarrow>
          now s' - now s =
            Min (set (map (\<lambda>k. get0 (api_last_used s) k + min_api_cooldown s - now s) (api_keys s))))"
proof -
  let ?w = "wait_until_available s"
  let ?s1 = "reset_daily_quota_usage ?w"
  from selected_key [OF assms] obtain k ks where
    av: "available_keys ?w = k # ks" and
    res: "get_next_api_key s = Inr (mark_used ?s1 (now ?w) (min_by (key_rank ?s1) k ks))" by blast
  define key where "key = min_by (key_rank ?s1) k ks"
  define s' where "s' = snd (mark_used ?s1 (now ?w) key)"
  have r: "get_next_api_key s = Inr (key, s')"
    using res by (simp add: key_def s'_def mark_used_def)
  have "key \<in> set (k # ks)" unfolding key_def by (rule min_by_mem)
  then have mem: "key \<in> set (available_keys ?w)" using av by simp
  then have k1: "key \<in> set (api_keys s)" by (simp add: available_keys_def)
  have now': "now s' = now ?w" by (simp add: s'_def)
  have k2: "now s' - get0 (api_last_used s) key \<ge> min_api_cooldown s"
    using mem now' by (simp add: available_keys_def)
  have k3: "available_keys s \<noteq> [] \<longrightarrow> now s' = now s"
    using now' by (simp add: now_wait_until_available)
  have k4: "available_keys s = [] \<longrightarrow>
          now s' - now s =
            Min (set (map (\<lambda>k. get0 (api_last_used s) k + min_api_cooldown s - now s) (api_keys s)))"
  proof
    assume e: "available_keys s = []"
    from sleep_time_positive(1) [OF assms(1) e] now' e
    have "now s' - now s = Min (set (map (\<lambda>key. get0 (api_last_used s) key) (api_keys s))) + min_api_cooldown s - now s"
      by (simp add: now_wait_until_available)
    then show "now s' - now s =
            Min (set (map (\<lambda>k. get0 (api_last_used s) k + min_api_cooldown s - now s) (api_keys s)))"
      by (simp only: Min_remaining_wait [OF assms(1)])
  qed
  from r k1 k2 k3 k4 show ?thesis by blast
qed

theorem get_next_api_key_respects_cooldown_witness:
  "\<exists>key s'. get_next_api_key cooling_pool = Inr (key, s') \<and> key = ''k2'' \<and> now s' = 101"
proof -
  have h1: "api_keys cooling_pool \<noteq> []" by (simp add: cooling_pool_def)
  have h2: "[] \<notin> set (api_keys cooling_pool)" by (simp add: cooling_pool_def)
  have av: "available_keys cooling_pool = []"
    by (simp add: cooling_pool_def available_keys_def get0_def)
  have m: "Min (set (map (\<lambda>k. get0 (api_last_used cooling_pool) k + min_api_cooldown cooling_pool
              - now cooling_pool) (api_keys cooling_pool))) = 1"
    by (simp add: cooling_pool_def get0_def)
  from get_next_api_key_respects_cooldown [OF h1 h2] obtain key s' where
    r: "get_next_api_key cooling_pool = Inr (key, s')" and
    k: "key \<in> set (api_keys cooling_pool)" and
    c: "now s' - get0 (api_last_used cooling_pool) key \<ge> min_api_cooldown cooling_pool" and
    w: "now s' - now cooling_pool = 1"
    using av m by auto
  from w have n: "now s' = 101" by (simp add: cooling_pool_def)
  from k c n have "key = ''k2''" by (auto simp: cooling_pool_def get0_def)
  with r n show ?thesis by blast
qed

text \<open>
  Claim C2. Among the keys that pass the cooldown filter (taken in the state in which the
  selection happens, after the daily reset), the key returned is minimal for the
  lexicographic order on (errors, quota ratio, usage count); every key before it in the
  list is strictly worse, so among equal keys the first in list order is returned.
\<close>

theorem get_next_api_key_first_minimum:
  assumes "api_keys s \<noteq> []" and "[] \<notin> set (api_keys s)"
  shows "\<exists>key s' ys zs. get_next_api_key s = Inr (key, s')
     \<and> available_keys (wait_until_available s) = ys @ key # zs
     \<and> (\<forall>y\<in>set ys. key_rank (reset_daily_quota_usage (wait_until_available s)) key
                      < key_rank (reset_daily_quota_usage (wait_until_available s)) y)
     \<and> (\<forall>z\<in>set zs. key_rank (reset_daily_quota_usage (wait_until_available s)) key
                      \<le> key_rank (reset_daily_quota_usage (wait_until_available s)) z)"
proof -
  let ?w = "wait_until_available s"
  let ?s1 = "reset_daily_quota_usage ?w"
  from selected_key [OF assms] obtain k ks where
    av: "available_keys ?w = k # ks" and
    res: "get_next_api_key s = Inr (mark_used ?s1 (now ?w) (min_by (key_rank ?s1) k ks))" by blast
  define key where "key = min_by (key_rank ?s1) k ks"
  define s' where "s' = snd (mark_used ?s1 (now ?w) key)"
  have r: "get_next_api_key s = Inr (key, s')"
    using res by (simp add: key_def s'_def mark_used_def)
  from min_by_first_minimum [of k ks "key_rank ?s1"] obtain ys zs where
    "k # ks = ys @ key # zs" "\<forall>y\<in>set ys. key_rank ?s1 key < key_rank ?s1 y"
    "\<forall>z\<in>set zs. key_rank ?s1 key \<le> key_rank ?s1 z"
    unfolding key_def by blast
  with r av show ?thesis by metis
qed

theorem get_next_api_key_first_minimum_witness:
  "(\<exists>key s' ys zs. get_next_api_key ready_pool = Inr (key, s')
     \<and> available_keys (wait_until_available ready_pool) = ys @ key # zs
     \<and> (\<forall>y\<in>set ys. key_rank (reset_daily_quota_usage (wait_until_available ready_pool)) key
                      < key_rank (reset_daily_quota_usage (wait_until_available ready_pool)) y)
     \<and> (\<forall>z\<in>set zs. key_rank (reset_daily_quota_usage (wait_until_available ready_pool)) key
                      \<le> key_rank (reset_daily_quota_usage (wait_until_available ready_pool)) z))
   \<and> map_sum id fst (get_next_api_key ready_pool) = Inr ''k2''"
proof -
  have h1: "api_keys ready_pool \<noteq> []" by (simp add: ready_pool_def)
  have h2: "[] \<notin> set (api_keys ready_pool)" by (simp add: ready_pool_def)
  have e: "map_sum id fst (get_next_api_key ready_pool) = Inr ''k2''" by code_simp
  from get_next_api_key_first_minimum [OF h1 h2] e show ?thesis by blast
qed

section \<open>Daily quota: reset on a new day\<close>

lemma sum_today_filter:
  "sum_today (date_of current) h acc = acc + sum_list (map units_used (filter (on_day current) h))"
  by (induction h arbitrary: acc) (auto simp: on_day_def split: option.splits)

lemma get_used_quota_sum:
  "get_used_quota db current api_key =
     (case db api_key of
        None \<Rightarrow> 0
      | Some info \<Rightarrow> sum_list (map units_used (filter (on_day current) (history info))))"
  by (simp add: get_used_quota_def sum_today_filter split: option.splits)

lemma reset_on_new_day:
  assumes "date_of (now s) \<noteq> last_quota_reset_day s"
  shows "get0 (daily_quota_usage (reset_daily_quota_usage s)) key = 0"
    and "last_quota_reset_day (reset_daily_quota_usage s) = date_of (now s)"
  using assms by (simp_all add: reset_daily_quota_usage_def Let_def get0_def)

lemma reset_day [simp]: "last_quota_reset_day (reset_daily_quota_usage s) = date_of (now s)"
  by (simp add: reset_daily_quota_usage_def Let_def)

lemma track_api_usage_fields [simp]:
  "last_quota_reset_day (snd (track_api_usage s k u)) = date_of (now s)"
  "now (snd (track_api_usage s k u)) = now s"
  by (simp_all add: track_api_usage_def Let_def)

lemma track_on_new_day:
  assumes "date_of (now s) \<noteq> last_quota_reset_day s"
  shows "fst (track_api_usage s key units) = units"
  using reset_on_new_day(1) [OF assms, of key]
  by (simp add: track_api_usage_def Let_def get0_def)

lemma update_quota_info_history:
  "\<exists>info. update_quota_info db recorded api_key status units api_key = Some info
     \<and> set (history info) \<subseteq>
         insert \<lparr>timestamp = Some recorded, entry_status = status, units_used = units\<rparr>
           (case db api_key of None \<Rightarrow> {} | Some i \<Rightarrow> set (history i))"
proof -
  have "set (drop n (h @ [e])) \<subseteq> insert e (set h)" for n and h :: "history_entry list" and e
    using set_drop_subset [of n "h @ [e]"] by auto
  then show ?thesis
    by (auto simp: update_quota_info_def Let_def split: option.splits)
qed

text \<open>
  Claim C6. In the scraper, usage recorded by \<open>track_api_usage\<close> on one day is not counted
  once the clock shows another day: the next \<open>track_api_usage\<close> first resets the counters
  and returns only its own units, and after \<open>reset_daily_quota_usage\<close> every key reads 0.
  In the validator, \<open>get_used_quota\<close> is the sum of the units of the history entries whose
  time stamp falls on the current day, so an entry recorded on another day adds nothing.
\<close>

theorem daily_quota_is_reset_on_rollover:
  "(date_of (now s) \<noteq> last_quota_reset_day s \<longrightarrow>
       get0 (daily_quota_usage (reset_daily_quota_usage s)) key = 0
     \<and> last_quota_reset_day (reset_daily_quota_usage s) = date_of (now s))
   \<and> (date_of t' \<noteq> date_of (now s) \<longrightarrow>
       fst (track_api_usage ((snd (track_api_usage s key units))\<lparr>now := t'\<rparr>) key' units') = units')
   \<and> get_used_quota db current api_key =
       (case db api_key of
          None \<Rightarrow> 0
        | Some info \<Rightarrow> sum_list (map units_used (filter (on_day current) (history info))))
   \<and> (date_of recorded \<noteq> date_of current
        \<and> (\<forall>info. db api_key = Some info \<longrightarrow> (\<forall>e\<in>set (history info). \<not> on_day current e)) \<longrightarrow>
       get_used_quota (update_quota_info db recorded api_key status recorded_units) current api_key = 0)"
proof (intro conjI impI)
  assume "date_of (now s) \<noteq> last_quota_reset_day s"
  then show "get0 (daily_quota_usage (reset_daily_quota_usage s)) key = 0"
    and "last_quota_reset_day (reset_daily_quota_usage s) = date_of (now s)"
    by (rule reset_on_new_day)+
next
  assume d: "date_of t' \<noteq> date_of (now s)"
  let ?s2 = "(snd (track_api_usage s key units))\<lparr>now := t'\<rparr>"
  have "date_of (now ?s2) \<noteq> last_quota_reset_day ?s2" using d by simp
  then show "fst (track_api_usage ?s2 key' units') = units'" by (rule track_on_new_day)
next
  show "get_used_quota db current api_key =
       (case db api_key of
          None \<Rightarrow> 0
        | Some info \<Rightarrow> sum_list (map units_used (filter (on_day current) (history info))))"
    by (rule get_used_quota_sum)
next
  assume a: "date_of recorded \<noteq> date_of current
        \<and> (\<forall>info. db api_key = Some info \<longrightarrow> (\<forall>e\<in>set (history info). \<not> on_day current e))"
  let ?e = "\<lparr>timestamp = Some recorded, entry_status = status, units_used = recorded_units\<rparr>"
  from update_quota_info_history [of db recorded api_key status recorded_units] obtain info where
    i: "update_quota_info db recorded api_key status recorded_units api_key = Some info"
    and sub: "set (history info) \<subseteq> insert ?e (case db api_key of None \<Rightarrow> {} | Some i \<Rightarrow> set (history i))"
    by blast
  have ne: "\<not> on_day current ?e" using a by (simp add: on_day_def)
  have "\<not> on_day current e" if "e \<in> set (history info)" for e
    using that sub ne a by (cases "db api_key") auto
  then have "filter (on_day current) (history info) = []" by (simp add: filter_empty_conv)
  then show "get_used_quota (update_quota_info db recorded api_key status recorded_units) current api_key = 0"
    by (simp add: get_used_quota_sum i)
qed

definition day_one_pool :: scraper where
  "day_one_pool =
     \<lparr>api_keys = [''k1''], api_usage_count = Map.empty, api_last_used = Map.empty,
      api_errors = Map.empty, daily_quota_usage = [''k1'' \<mapsto> 700], last_quota_reset_day = 1,
      min_api_cooldown = 2, now = 172800, choice = 0\<rparr>"

theorem daily_quota_is_reset_on_rollover_witness:
  "get0 (daily_quota_usage (reset_daily_quota_usage day_one_pool)) ''k1'' = 0
   \<and> fst (track_api_usage ((snd (track_api_usage day_one_pool ''k1'' 100))\<lparr>now := 260000\<rparr>) ''k1'' 5) = 5
   \<and> get_used_quota (update_quota_info Map.empty 86000 ''k1'' ''valid'' 1) 86500 ''k1'' = 0"
proof -
  have n: "now day_one_pool = 172800" "last_quota_reset_day day_one_pool = 1"
    by (simp_all add: day_one_pool_def)
  have d1: "date_of 172800 = 2" by code_simp
  have d2: "date_of 260000 = 3" by code_simp
  have d3: "date_of 86000 = 0" by code_simp
  have d4: "date_of 86500 = 1" by code_simp
  have h1: "date_of (now day_one_pool) \<noteq> last_quota_reset_day day_one_pool"
    by (simp add: n d1)
  have h2: "date_of 260000 \<noteq> date_of (now day_one_pool)"
    by (simp add: n d1 d2)
  have h3: "date_of 86000 \<noteq> date_of 86500
      \<and> (\<forall>info. (Map.empty :: quota_database) ''k1'' = Some info \<longrightarrow>
            (\<forall>e\<in>set (history info). \<not> on_day 86500 e))"
    by (simp add: d3 d4)
  from daily_quota_is_reset_on_rollover
    [where s = day_one_pool and key = "''k1''" and t' = 260000 and units = 100 and key' = "''k1''"
       and units' = 5 and db = Map.empty and current = 86500 and api_key = "''k1''"
       and recorded = 86000 and status = "''valid''" and recorded_units = 1]
    h1 h2 h3
  show ?thesis by blast
qed

section \<open>Resilient remote client: \<open>create_youtube_service\<close>\<close>

text \<open>
  The remote service is an oracle: a call of \<open>build\<close> (or of \<open>request.execute\<close> in the
  validator) returns, raises \<open>HttpError\<close> with a status code and a reason text, or raises
  another exception. A run is driven by a script, the list of the outcomes of the successive
  remote calls, each paired with the value that \<open>random.uniform(0, 1)\<close> returns if the
  handler of that outcome draws a jitter. A run that needs more outcomes than the script
  holds ends as \<open>Pending\<close>.
\<close>

datatype remote_outcome = Succeeded | HttpError int string | Crash string

datatype event = Build string | Backoff rat | Remove string

datatype call_result = Returned string | Raised py_error | Pending

text \<open>\<open>sub in s\<close> for strings.\<close>

fun contains :: "string \<Rightarrow> string \<Rightarrow> bool" where
  "contains [] sub = (sub = [])"
| "contains (c # s) sub = (startswith (c # s) sub \<or> contains s sub)"

text \<open>
  The \<open>if\<close>/\<open>elif\<close> chain of the handler of \<open>HttpError\<close>, in the order of the source. The
  branches for a quota text, for 403 with \<open>accessNotConfigured\<close> and for 400 remove the key
  and differ in the message raised when the pool gets empty; the branches for the other 403
  and for the codes from 500 on are the same code.
\<close>

datatype handling =
    Remove_key string
  | Backoff_same_key
  | Backoff_rate_limit
  | Backoff_or_raise

definition classify :: "int \<Rightarrow> string \<Rightarrow> handling" where
  "classify error_code error_reason =
     (if contains (lower error_reason) ''quota''
      then Remove_key ''All API keys have exceeded their quota. Please try again later.''
      else if error_code = 403
      then (if contains error_reason ''accessNotConfigured''
            then Remove_key ''No working API keys available. Please check API configuration.''
            else Backoff_same_key)
      else if error_code = 429 then Backoff_rate_limit
      else if error_code \<ge> 500 then Backoff_same_key
      else if error_code = 400
      then Remove_key ''All API keys are invalid. Please check your API keys.''
      else Backoff_or_raise)"

definition max_retries :: nat where
  "max_retries = 3"

definition base_delay :: rat where
  "base_delay = 1"

text \<open>\<open>self.api_keys.remove(api_key)\<close>: the first occurrence goes; \<open>ValueError\<close> when there
  is none.\<close>

definition remove_key :: "scraper \<Rightarrow> string \<Rightarrow> py_error + scraper" where
  "remove_key s api_key =
     (if api_key \<in> set (api_keys s) then Inr (s\<lparr>api_keys := remove1 api_key (api_keys s)\<rparr>)
      else Inl (ValueError ''list.remove(x): x not in list''))"

definition record_error :: "scraper \<Rightarrow> string \<Rightarrow> scraper" where
  "record_error s api_key =
     s\<lparr>api_errors := (api_errors s)(api_key \<mapsto> get0 (api_errors s) api_key + 1)\<rparr>"

text \<open>
  \<open>create_youtube_service\<close> and its \<open>while\<close> loop. The last argument collects the events of
  the run. A recursive call of \<open>create_youtube_service\<close> selects a key again and starts with
  a fresh retry count. The depth of the call stack is not modelled for this function: a run
  is given as many nested calls as its script asks for.
\<close>

function create_youtube_service ::
    "scraper \<Rightarrow> (remote_outcome \<times> rat) list \<Rightarrow> event list \<Rightarrow> call_result \<times> scraper \<times> event list"
  and retry_loop ::
    "string \<Rightarrow> nat \<Rightarrow> scraper \<Rightarrow> (remote_outcome \<times> rat) list \<Rightarrow> event list
       \<Rightarrow> call_result \<times> scraper \<times> event list"
where
  "create_youtube_service s script tr =
     (case get_next_api_key s of
        Inl e \<Rightarrow> (Raised e, s, tr)
      | Inr (api_key, s1) \<Rightarrow> retry_loop api_key 0 s1 script tr)"
| "retry_loop api_key retry_count s [] tr =
     (if retry_count < max_retries then (Pending, s, tr)
      else (Raised (OtherException ''Failed to create YouTube service after 3 retries''), s, tr))"
| "retry_loop api_key retry_count s ((outcome, jitter) # rest) tr =
     (if retry_count < max_retries then
        (case outcome of
           Succeeded \<Rightarrow> (Returned api_key, s, tr @ [Build api_key])
         | Crash msg \<Rightarrow> (Raised (OtherException msg), s, tr @ [Build api_key])
         | HttpError error_code error_reason \<Rightarrow>
             (case classify error_code error_reason of
                Remove_key msg \<Rightarrow>
                  (case remove_key (record_error s api_key) api_key of
                     Inl e \<Rightarrow> (Raised e, record_error s api_key, tr @ [Build api_key])
                   | Inr s2 \<Rightarrow>
                       if api_keys s2 = []
                       then (Raised (ValueError msg), s2, tr @ [Build api_key, Remove api_key])
                       else create_youtube_service s2 rest (tr @ [Build api_key, Remove api_key]))
              | Backoff_same_key \<Rightarrow>
                  retry_loop api_key (retry_count + 1)
                    (sleep (record_error s api_key) (base_delay * 2 ^ (retry_count + 1) + jitter)) rest
                    (tr @ [Build api_key, Backoff (base_delay * 2 ^ (retry_count + 1) + jitter)])
              | Backoff_rate_limit \<Rightarrow>
                  if retry_count + 1 \<ge> 2
                  then create_youtube_service
                    (sleep (record_error s api_key) (base_delay * 2 ^ (retry_count + 1) + jitter)) rest
                    (tr @ [Build api_key, Backoff (base_delay * 2 ^ (retry_count + 1) + jitter)])
                  else retry_loop api_key (retry_count + 1)
                    (sleep (record_error s api_key) (base_delay * 2 ^ (retry_count + 1) + jitter)) rest
                    (tr @ [Build api_key, Backoff (base_delay * 2 ^ (retry_count + 1) + jitter)])
              | Backoff_or_raise \<Rightarrow>
                  if retry_count + 1 \<ge> max_retries
                  then (Raised (HttpFailure error_code error_reason), record_error s api_key,
                        tr @ [Build api_key])
                  else retry_loop api_key (retry_count + 1)
                    (sleep (record_error s api_key) (base_delay * 2 ^ (retry_count + 1) + jitter)) rest
                    (tr @ [Build api_key, Backoff (base_delay * 2 ^ (retry_count + 1) + jitter)])))
      else (Raised (OtherException ''Failed to create YouTube service after 3 retries''), s, tr))"
  by pat_completeness auto

termination
  by (relation "measure (\<lambda>x. case x of
         Inl (s, script, tr) \<Rightarrow> 2 * length script + 1
       | Inr (api_key, retry_count, s, script, tr) \<Rightarrow> 2 * length script)") auto

declare create_youtube_service.simps [simp del]

section \<open>Resilient remote client: \<open>validate_api_key\<close> of the validator\<close>





section \<open>Remote client: exhaustion of the pool\<close>

definition exhaustion_messages :: "string list" where
  "exhaustion_messages =
     [''No API keys available.'',
      ''All API keys have exceeded their quota. Please try again later.'',
      ''No working API keys available. Please check API configuration.'',
      ''All API keys are invalid. Please check your API keys.'']"

lemma pick_key_mem:
  assumes "av \<noteq> []" "set av \<subseteq> set (api_keys s)"
  shows "pick_key s av \<in> set (api_keys s)"
proof -
  obtain k ks where av: "av = k # ks" using assms(1) by (cases av) auto
  have m: "min_by (key_rank s) k ks \<in> set (api_keys s)"
    using min_by_mem [of "key_rank s" k ks] assms(2) av by auto
  have ne: "api_keys s \<noteq> []" using assms by auto
  then have "api_keys s ! (choice s mod length (api_keys s)) \<in> set (api_keys s)"
    by (intro nth_mem) simp
  with m show ?thesis
    by (simp add: pick_key_def av choose_best_None Let_def del: choose_best.simps)
qed

lemma get_next_api_key_Inr:
  assumes "get_next_api_key s = Inr (k, s')"
  shows "k \<in> set (api_keys s) \<and> api_keys s' = api_keys s"
proof -
  have ne: "api_keys s \<noteq> []"
    using assms by (subst (asm) get_next_api_key.simps) (auto split: if_splits)
  let ?w = "wait_until_available s"
  let ?s1 = "reset_daily_quota_usage ?w"
  have sub: "set (available_keys ?w) \<subseteq> set (api_keys ?s1)" by (auto simp: available_keys_def)
  from pick_key_mem [OF wait_until_available_ready [OF ne] sub]
  have "pick_key ?s1 (available_keys ?w) \<in> set (api_keys s)" by simp
  with assms get_next_api_key_eq [OF ne] show ?thesis by (auto simp: mark_used_def)
qed

lemma get_next_api_key_Inl:
  "get_next_api_key s = Inl e \<longleftrightarrow> api_keys s = [] \<and> e = ValueError ''No API keys available.''"
proof (cases "api_keys s = []")
  case True
  then show ?thesis by (subst get_next_api_key.simps) auto
next
  case False
  from get_next_api_key_eq [OF False] False show ?thesis by simp
qed

lemma api_keys_record_error [simp]: "api_keys (record_error s k) = api_keys s"
  by (simp add: record_error_def)

lemma remove_key_Inr: "remove_key s k = Inr s2 \<Longrightarrow> api_keys s2 = remove1 k (api_keys s)"
  by (auto simp: remove_key_def split: if_splits)

lemma remove_key_Inl: "remove_key s k = Inl e \<Longrightarrow> k \<notin> set (api_keys s)"
  by (auto simp: remove_key_def split: if_splits)

lemma classify_messages:
  "classify c r = Remove_key msg \<Longrightarrow> msg \<in> set exhaustion_messages"
  by (auto simp: classify_def exhaustion_messages_def split: if_splits)

lemma exhaustion:
  "create_youtube_service s script tr = (r, s', tr') \<Longrightarrow> api_keys s' = [] \<Longrightarrow>
     \<exists>msg\<in>set exhaustion_messages. r = Raised (ValueError msg)"
  "api_keys s \<noteq> [] \<Longrightarrow> retry_loop k rc s script tr = (r, s', tr') \<Longrightarrow> api_keys s' = [] \<Longrightarrow>
     \<exists>msg\<in>set exhaustion_messages. r = Raised (ValueError msg)"
proof (induction s script tr and k rc s script tr arbitrary: r s' tr' and r s' tr'
       rule: create_youtube_service_retry_loop.induct)
  case (1 s script tr)
  show ?case
  proof (cases "get_next_api_key s")
    case (Inl e)
    then have "e = ValueError ''No API keys available.''" by (simp add: get_next_api_key_Inl)
    with Inl "1.prems" show ?thesis
      by (simp add: create_youtube_service.simps exhaustion_messages_def)
  next
    case (Inr p)
    obtain k s1 where p: "p = (k, s1)" by (cases p)
    from get_next_api_key_Inr [of s k s1] Inr p have ks: "api_keys s1 = api_keys s" "k \<in> set (api_keys s)"
      by simp_all
    then have ne: "api_keys s1 \<noteq> []" by auto
    from "1.prems" Inr p have "retry_loop k 0 s1 script tr = (r, s', tr')"
      by (simp add: create_youtube_service.simps)
    from "1.IH" [OF Inr p [symmetric] ne this "1.prems"(2)] show ?thesis .
  qed
next
  case (2 api_key retry_count s tr)
  then show ?case by (auto split: if_splits)
next
  case (3 api_key retry_count s outcome jitter rest tr)
  show ?case
  proof (cases "retry_count < max_retries")
    case False
    with "3.prems" show ?thesis by auto
  next
    case lt: True
    show ?thesis
    proof (cases outcome)
      case Succeeded
      with lt "3.prems" show ?thesis by auto
    next
      case (Crash msg)
      with lt "3.prems" show ?thesis by auto
    next
      case (HttpError c reason)
      show ?thesis
      proof (cases "classify c reason")
        case (Remove_key msg)
        show ?thesis
        proof (cases "remove_key (record_error s api_key) api_key")
          case (Inl e)
          with lt HttpError Remove_key "3.prems" show ?thesis by auto
        next
          case (Inr s2)
          show ?thesis
          proof (cases "api_keys s2 = []")
            case True
            with lt HttpError Remove_key Inr "3.prems" classify_messages [OF Remove_key]
            show ?thesis by auto
          next
            case False
            with lt HttpError Remove_key Inr "3.prems"
            have "create_youtube_service s2 rest (tr @ [Build api_key, Remove api_key]) = (r, s', tr')"
              by simp
            from "3.IH"(1) [OF lt HttpError Remove_key Inr False this "3.prems"(3)]
            show ?thesis .
          qed
        qed
      next
        case Backoff_same_key
        let ?d = "base_delay * 2 ^ (retry_count + 1) + jitter"
        have ne: "api_keys (sleep (record_error s api_key) ?d) \<noteq> []" using "3.prems"(1) by simp
        from lt HttpError Backoff_same_key "3.prems"
        have "retry_loop api_key (retry_count + 1) (sleep (record_error s api_key) ?d) rest
                (tr @ [Build api_key, Backoff ?d]) = (r, s', tr')" by simp
        from "3.IH"(2) [OF lt HttpError Backoff_same_key ne this "3.prems"(3)] show ?thesis .
      next
        case Backoff_rate_limit
        let ?d = "base_delay * 2 ^ (retry_count + 1) + jitter"
        have ne: "api_keys (sleep (record_error s api_key) ?d) \<noteq> []" using "3.prems"(1) by simp
        show ?thesis
        proof (cases "retry_count + 1 \<ge> 2")
          case True
          with lt HttpError Backoff_rate_limit "3.prems"
          have "create_youtube_service (sleep (record_error s api_key) ?d) rest
                (tr @ [Build api_key, Backoff ?d]) = (r, s', tr')" by simp
          from "3.IH"(3) [OF lt HttpError Backoff_rate_limit True this "3.prems"(3)] show ?thesis .
        next
          case False
          with lt HttpError Backoff_rate_limit "3.prems"
          have "retry_loop api_key (retry_count + 1) (sleep (record_error s api_key) ?d) rest
                (tr @ [Build api_key, Backoff ?d]) = (r, s', tr')" by simp
          from "3.IH"(4) [OF lt HttpError Backoff_rate_limit False ne this "3.prems"(3)] show ?thesis .
        qed
      next
        case Backoff_or_raise
        let ?d = "base_delay * 2 ^ (retry_count + 1) + jitter"
        have ne: "api_keys (sleep (record_error s api_key) ?d) \<noteq> []" using "3.prems"(1) by simp
        show ?thesis
        proof (cases "retry_count + 1 \<ge> max_retries")
          case True
          with lt HttpError Backoff_or_raise "3.prems" show ?thesis by auto
        next
          case False
          with lt HttpError Backoff_or_raise "3.prems"
          have "retry_loop api_key (retry_count + 1) (sleep (record_error s api_key) ?d) rest
                (tr @ [Build api_key, Backoff ?d]) = (r, s', tr')" by simp
          from "3.IH"(5) [OF lt HttpError Backoff_or_raise False ne this "3.prems"(3)] show ?thesis .
        qed
      qed
    qed
  qed
qed

section \<open>Remote client: what a run adds to the trace\<close>

text \<open>What a run adds to the trace: builds use keys of the pool \<open>K\<close>, every backoff delay is
  \<open>base_delay * 2 ^ n\<close> plus a jitter of the script with \<open>n\<close> from 1 to 3, and the pool at the
  end is part of \<open>K\<close>.\<close>

definition extends_trace :: "string set \<Rightarrow> rat set \<Rightarrow> event list \<Rightarrow> scraper \<Rightarrow> event list \<Rightarrow> bool" where
  "extends_trace K J tr s' tr' =
     (\<exists>more. tr' = tr @ more
        \<and> (\<forall>x. Build x \<in> set more \<longrightarrow> x \<in> K)
        \<and> (\<forall>d. Backoff d \<in> set more \<longrightarrow> (\<exists>n\<in>{1, 2, 3::nat}. \<exists>j\<in>J. d = base_delay * 2 ^ n + j))
        \<and> set (api_keys s') \<subseteq> K)"

lemma extends_trace_refl:
  assumes "set (api_keys s') \<subseteq> K"
    and "\<forall>x. Build x \<in> set evs \<longrightarrow> x \<in> K"
    and "\<forall>d. Backoff d \<in> set evs \<longrightarrow> (\<exists>n\<in>{1, 2, 3::nat}. \<exists>j\<in>J. d = base_delay * 2 ^ n + j)"
  shows "extends_trace K J tr s' (tr @ evs)"
  unfolding extends_trace_def using assms by blast

lemma extends_trace_step:
  assumes "extends_trace K J (tr @ evs) s' tr'" "K \<subseteq> K'" "J \<subseteq> J'"
    and "\<forall>x. Build x \<in> set evs \<longrightarrow> x \<in> K'"
    and "\<forall>d. Backoff d \<in> set evs \<longrightarrow> (\<exists>n\<in>{1, 2, 3::nat}. \<exists>j\<in>J'. d = base_delay * 2 ^ n + j)"
  shows "extends_trace K' J' tr s' tr'"
proof -
  from assms(1) obtain more where m: "tr' = (tr @ evs) @ more"
    "\<forall>x. Build x \<in> set more \<longrightarrow> x \<in> K"
    "\<forall>d. Backoff d \<in> set more \<longrightarrow> (\<exists>n\<in>{1, 2, 3::nat}. \<exists>j\<in>J. d = base_delay * 2 ^ n + j)"
    "set (api_keys s') \<subseteq> K"
    unfolding extends_trace_def by blast
  have 1: "tr' = tr @ (evs @ more)" using m(1) by simp
  have 2: "\<forall>x. Build x \<in> set (evs @ more) \<longrightarrow> x \<in> K'" using m(2) assms(2,4) by auto
  have 3: "\<forall>d. Backoff d \<in> set (evs @ more) \<longrightarrow> (\<exists>n\<in>{1, 2, 3::nat}. \<exists>j\<in>J'. d = base_delay * 2 ^ n + j)"
  proof (intro allI impI)
    fix d assume "Backoff d \<in> set (evs @ more)"
    then consider "Backoff d \<in> set evs" | "Backoff d \<in> set more" by auto
    then show "\<exists>n\<in>{1, 2, 3::nat}. \<exists>j\<in>J'. d = base_delay * 2 ^ n + j"
    proof cases
      case 1 with assms(5) show ?thesis by blast
    next
      case 2
      with m(3) obtain n j where "n \<in> {1, 2, 3::nat}" "j \<in> J" "d = base_delay * 2 ^ n + j" by blast
      with assms(3) show ?thesis by blast
    qed
  qed
  have 4: "set (api_keys s') \<subseteq> K'" using m(4) assms(2) by auto
  show ?thesis unfolding extends_trace_def using 1 2 3 4 by blast
qed

lemma api_keys_sleep_record [simp]: "api_keys (sleep (record_error s k) d) = api_keys s"
  by (simp add: sleep_def)

lemma run_extends_trace:
  "create_youtube_service s script tr = (r, s', tr') \<Longrightarrow>
     extends_trace (set (api_keys s)) (snd ` set script) tr s' tr'"
  "k \<in> set (api_keys s) \<Longrightarrow> retry_loop k rc s script tr = (r, s', tr') \<Longrightarrow>
     extends_trace (set (api_keys s)) (snd ` set script) tr s' tr'"
proof (induction s script tr and k rc s script tr arbitrary: r s' tr' and r s' tr'
       rule: create_youtube_service_retry_loop.induct)
  case (1 s script tr)
  show ?case
  proof (cases "get_next_api_key s")
    case (Inl e)
    with "1.prems" have "s' = s" "tr' = tr" by (simp_all add: create_youtube_service.simps)
    then show ?thesis using extends_trace_refl [of s "set (api_keys s)" "[]" "snd ` set script" tr]
      by simp
  next
    case (Inr p)
    obtain k s1 where p: "p = (k, s1)" by (cases p)
    from get_next_api_key_Inr [of s k s1] Inr p have ks: "api_keys s1 = api_keys s" "k \<in> set (api_keys s1)"
      by simp_all
    from "1.prems" Inr p have "retry_loop k 0 s1 script tr = (r, s', tr')"
      by (simp add: create_youtube_service.simps)
    from "1.IH" [OF Inr p [symmetric] ks(2) this] ks(1) show ?thesis by simp
  qed
next
  case (2 api_key retry_count s tr)
  then have "s' = s" "tr' = tr" by (auto split: if_splits)
  then show ?case using extends_trace_refl [of s "set (api_keys s)" "[]" "snd ` set []" tr]
    by simp
next
  case (3 api_key retry_count s outcome jitter rest tr)
  let ?K = "set (api_keys s)"
  let ?J = "snd ` set ((outcome, jitter) # rest)"
  let ?d = "base_delay * 2 ^ (retry_count + 1) + jitter"
  let ?sb = "sleep (record_error s api_key) ?d"
  have stop_here: "extends_trace ?K ?J tr s0 (tr @ evs)"
    if a: "set (api_keys s0) \<subseteq> ?K" and b: "set evs \<subseteq> {Build api_key, Remove api_key}" for s0 evs
  proof (rule extends_trace_refl [OF a])
    show "\<forall>x. Build x \<in> set evs \<longrightarrow> x \<in> ?K" using b "3.prems"(1) by auto
    show "\<forall>d. Backoff d \<in> set evs \<longrightarrow>
       (\<exists>n\<in>{1, 2, 3::nat}. \<exists>j\<in>?J. d = base_delay * 2 ^ n + j)" using b by auto
  qed
  show ?case
  proof (cases "retry_count < max_retries")
    case False
    with "3.prems" have "s' = s" "tr' = tr" by auto
    then show ?thesis using stop_here [of s "[]"] by simp
  next
    case lt: True
    then have n: "retry_count + 1 \<in> {1, 2, 3::nat}" by (auto simp: max_retries_def)
    have jit: "jitter \<in> ?J" by simp
    have backoff_ok: "\<forall>d. Backoff d \<in> set [Build api_key, Backoff ?d] \<longrightarrow>
         (\<exists>n\<in>{1, 2, 3::nat}. \<exists>j\<in>?J. d = base_delay * 2 ^ n + j)"
    proof (intro allI impI)
      fix d assume "Backoff d \<in> set [Build api_key, Backoff ?d]"
      then have "d = ?d" by simp
      with n jit show "\<exists>n\<in>{1, 2, 3::nat}. \<exists>j\<in>?J. d = base_delay * 2 ^ n + j" by blast
    qed
    have build_ok: "\<forall>x. Build x \<in> set [Build api_key, Backoff ?d] \<longrightarrow> x \<in> ?K"
      using "3.prems"(1) by simp
    have kb: "api_key \<in> set (api_keys ?sb)" using "3.prems"(1) by simp
    have step_backoff: "extends_trace ?K ?J tr s' tr'"
      if h: "extends_trace (set (api_keys ?sb)) (snd ` set rest) (tr @ [Build api_key, Backoff ?d]) s' tr'"
    proof (rule extends_trace_step [OF h])
      show "set (api_keys ?sb) \<subseteq> ?K" by simp
      show "snd ` set rest \<subseteq> ?J" by auto
      show "\<forall>x. Build x \<in> set [Build api_key, Backoff ?d] \<longrightarrow> x \<in> ?K" by (rule build_ok)
      show "\<forall>d. Backoff d \<in> set [Build api_key, Backoff ?d] \<longrightarrow>
         (\<exists>n\<in>{1, 2, 3::nat}. \<exists>j\<in>?J. d = base_delay * 2 ^ n + j)" by (rule backoff_ok)
    qed
    show ?thesis
    proof (cases outcome)
      case Succeeded
      with lt "3.prems" have "s' = s" "tr' = tr @ [Build api_key]" by auto
      then show ?thesis using stop_here [of s "[Build api_key]"] by simp
    next
      case (Crash msg)
      with lt "3.prems" have "s' = s" "tr' = tr @ [Build api_key]" by auto
      then show ?thesis using stop_here [of s "[Build api_key]"] by simp
    next
      case (HttpError c reason)
      show ?thesis
      proof (cases "classify c reason")
        case (Remove_key msg)
        show ?thesis
        proof (cases "remove_key (record_error s api_key) api_key")
          case (Inl e)
          with lt HttpError Remove_key "3.prems"
          have "s' = record_error s api_key" "tr' = tr @ [Build api_key]" by auto
          then show ?thesis using stop_here [of "record_error s api_key" "[Build api_key]"] by simp
        next
          case (Inr s2)
          from remove_key_Inr [OF Inr] have k2: "api_keys s2 = remove1 api_key (api_keys s)" by simp
          then have sub: "set (api_keys s2) \<subseteq> ?K" using set_remove1_subset by fastforce
          show ?thesis
          proof (cases "api_keys s2 = []")
            case True
            with lt HttpError Remove_key Inr "3.prems"
            have "s' = s2" "tr' = tr @ [Build api_key, Remove api_key]" by auto
            then show ?thesis using stop_here [of s2 "[Build api_key, Remove api_key]"] sub by simp
          next
            case False
            with lt HttpError Remove_key Inr "3.prems"
            have "create_youtube_service s2 rest (tr @ [Build api_key, Remove api_key]) = (r, s', tr')"
              by simp
            from "3.IH"(1) [OF lt HttpError Remove_key Inr False this]
            have h: "extends_trace (set (api_keys s2)) (snd ` set rest) (tr @ [Build api_key, Remove api_key]) s' tr'" .
            show ?thesis
            proof (rule extends_trace_step [OF h])
              show "set (api_keys s2) \<subseteq> ?K" by (rule sub)
              show "snd ` set rest \<subseteq> ?J" by auto
              show "\<forall>x. Build x \<in> set [Build api_key, Remove api_key] \<longrightarrow> x \<in> ?K"
                using "3.prems"(1) by simp
              show "\<forall>d. Backoff d \<in> set [Build api_key, Remove api_key] \<longrightarrow>
                 (\<exists>n\<in>{1, 2, 3::nat}. \<exists>j\<in>?J. d = base_delay * 2 ^ n + j)" by simp
            qed
          qed
        qed
      next
        case Backoff_same_key
        from lt HttpError Backoff_same_key "3.prems"
        have "retry_loop api_key (retry_count + 1) ?sb rest (tr @ [Build api_key, Backoff ?d]) = (r, s', tr')"
          by simp
        from "3.IH"(2) [OF lt HttpError Backoff_same_key kb this] show ?thesis by (rule step_backoff)
      next
        case Backoff_rate_limit
        show ?thesis
        proof (cases "retry_count + 1 \<ge> 2")
          case True
          with lt HttpError Backoff_rate_limit "3.prems"
          have "create_youtube_service ?sb rest (tr @ [Build api_key, Backoff ?d]) = (r, s', tr')" by simp
          from "3.IH"(3) [OF lt HttpError Backoff_rate_limit True this] show ?thesis by (rule step_backoff)
        next
          case False
          with lt HttpError Backoff_rate_limit "3.prems"
          have "retry_loop api_key (retry_count + 1) ?sb rest (tr @ [Build api_key, Backoff ?d]) = (r, s', tr')"
            by simp
          from "3.IH"(4) [OF lt HttpError Backoff_rate_limit False kb this] show ?thesis by (rule step_backoff)
        qed
      next
        case Backoff_or_raise
        show ?thesis
        proof (cases "retry_count + 1 \<ge> max_retries")
          case True
          with lt HttpError Backoff_or_raise "3.prems"
          have "s' = record_error s api_key" "tr' = tr @ [Build api_key]" by auto
          then show ?thesis using stop_here [of "record_error s api_key" "[Build api_key]"] by simp
        next
          case False
          with lt HttpError Backoff_or_raise "3.prems"
          have "retry_loop api_key (retry_count + 1) ?sb rest (tr @ [Build api_key, Backoff ?d]) = (r, s', tr')"
            by simp
          from "3.IH"(5) [OF lt HttpError Backoff_or_raise False kb this] show ?thesis by (rule step_backoff)
        qed
      qed
    qed
  qed
qed

section \<open>Remote client: claims about exhaustion, retries and backoff\<close>

definition two_keys :: scraper where
  "two_keys =
     \<lparr>api_keys = [''k1'', ''k2''], api_usage_count = Map.empty, api_last_used = Map.empty,
      api_errors = Map.empty, daily_quota_usage = Map.empty, last_quota_reset_day = 0,
      min_api_cooldown = 2, now = 100, choice = 0\<rparr>"

definition no_keys :: scraper where
  "no_keys = two_keys\<lparr>api_keys := []\<rparr>"

text \<open>
  Claim C5. With an empty pool \<open>get_next_api_key\<close> and \<open>create_youtube_service\<close> raise
  \<open>ValueError\<close> at once, without a call of the remote service; and whenever a run of
  \<open>create_youtube_service\<close> ends with an empty pool, its result is a raised \<open>ValueError\<close>
  with one of the exhaustion messages (it is neither a returned service nor a pending run).
\<close>

theorem empty_pool_raises_exhaustion:
  "(api_keys s = [] \<longrightarrow>
       get_next_api_key s = Inl (ValueError ''No API keys available.'')
     \<and> create_youtube_service s script tr = (Raised (ValueError ''No API keys available.''), s, tr))
   \<and> (create_youtube_service s script tr = (r, s', tr') \<and> api_keys s' = [] \<longrightarrow>
       (\<exists>msg\<in>set exhaustion_messages. r = Raised (ValueError msg)))"
proof (intro conjI impI)
  assume e: "api_keys s = []"
  then show g: "get_next_api_key s = Inl (ValueError ''No API keys available.'')"
    by (simp add: get_next_api_key_Inl)
  then show "create_youtube_service s script tr = (Raised (ValueError ''No API keys available.''), s, tr)"
    by (simp add: create_youtube_service.simps)
next
  assume "create_youtube_service s script tr = (r, s', tr') \<and> api_keys s' = []"
  then show "\<exists>msg\<in>set exhaustion_messages. r = Raised (ValueError msg)"
    using exhaustion(1) by blast
qed

theorem empty_pool_raises_exhaustion_witness:
  "get_next_api_key no_keys = Inl (ValueError ''No API keys available.'')
   \<and> (\<exists>msg\<in>set exhaustion_messages.
        fst (create_youtube_service two_keys
               [(HttpError 400 ''bad request'', 0), (HttpError 403 ''quotaExceeded'', 0)] [])
          = Raised (ValueError msg))"
proof -
  let ?run = "create_youtube_service two_keys
               [(HttpError 400 ''bad request'', 0), (HttpError 403 ''quotaExceeded'', 0)] []"
  have h1: "api_keys no_keys = []" by (simp add: no_keys_def)
  have h2: "api_keys (fst (snd ?run)) = []" by code_simp
  obtain r s' tr' where run: "?run = (r, s', tr')" by (cases ?run)
  with h2 have "?run = (r, s', tr') \<and> api_keys s' = []" by simp
  with empty_pool_raises_exhaustion [where s = two_keys and tr = "[]" and r = r and s' = s' and tr' = tr'
       and script = "[(HttpError 400 ''bad request'', 0), (HttpError 403 ''quotaExceeded'', 0)]"]
  have "\<exists>msg\<in>set exhaustion_messages. r = Raised (ValueError msg)" by blast
  moreover from empty_pool_raises_exhaustion [where s = no_keys and script = "[]" and tr = "[]"] h1
  have "get_next_api_key no_keys = Inl (ValueError ''No API keys available.'')" by blast
  ultimately show ?thesis using run by simp
qed

lemma retry_loop_first_build:
  assumes "k \<in> set (api_keys s)" "rc < max_retries"
  shows "\<exists>r s' more. retry_loop k rc s (x # rest) tr = (r, s', tr @ Build k # more)"
proof -
  obtain outcome jitter where x: "x = (outcome, jitter)" by (cases x)
  let ?d = "base_delay * 2 ^ (rc + 1) + jitter"
  let ?sb = "sleep (record_error s k) ?d"
  have kb: "k \<in> set (api_keys ?sb)" using assms(1) by simp
  have via_loop: "\<exists>r s' more. retry_loop k rc' s0 rest (tr @ Build k # evs) = (r, s', tr @ Build k # more)"
    if "k \<in> set (api_keys s0)" for rc' s0 evs
  proof -
    obtain r s' tr' where run: "retry_loop k rc' s0 rest (tr @ Build k # evs) = (r, s', tr')"
      by (cases "retry_loop k rc' s0 rest (tr @ Build k # evs)")
    from run_extends_trace(2) [OF that run] obtain more where "tr' = (tr @ Build k # evs) @ more"
      unfolding extends_trace_def by blast
    with run show ?thesis by simp
  qed
  have via_create: "\<exists>r s' more. create_youtube_service s0 rest (tr @ Build k # evs) = (r, s', tr @ Build k # more)"
    for s0 evs
  proof -
    obtain r s' tr' where run: "create_youtube_service s0 rest (tr @ Build k # evs) = (r, s', tr')"
      by (cases "create_youtube_service s0 rest (tr @ Build k # evs)")
    from run_extends_trace(1) [OF run] obtain more where "tr' = (tr @ Build k # evs) @ more"
      unfolding extends_trace_def by blast
    with run show ?thesis by simp
  qed
  show ?thesis
  proof (cases outcome)
    case Succeeded
    with assms(2) x show ?thesis by simp
  next
    case (Crash msg)
    with assms(2) x show ?thesis by simp
  next
    case (HttpError c reason)
    show ?thesis
    proof (cases "classify c reason")
      case (Remove_key msg)
      show ?thesis
      proof (cases "remove_key (record_error s k) k")
        case (Inl e)
        with assms(2) x HttpError Remove_key show ?thesis by simp
      next
        case (Inr s2)
        show ?thesis
        proof (cases "api_keys s2 = []")
          case True
          with assms(2) x HttpError Remove_key Inr show ?thesis by simp
        next
          case False
          with assms(2) x HttpError Remove_key Inr via_create [of s2 "[Remove k]"]
          show ?thesis by simp
        qed
      qed
    next
      case Backoff_same_key
      with assms(2) x HttpError via_loop [OF kb, of "rc + 1" "[Backoff ?d]"] show ?thesis by simp
    next
      case Backoff_rate_limit
      show ?thesis
      proof (cases "rc + 1 \<ge> 2")
        case True
        with assms(2) x HttpError Backoff_rate_limit via_create [of ?sb "[Backoff ?d]"]
        show ?thesis by simp
      next
        case False
        with assms(2) x HttpError Backoff_rate_limit via_loop [OF kb, of "rc + 1" "[Backoff ?d]"]
        show ?thesis by simp
      qed
    next
      case Backoff_or_raise
      show ?thesis
      proof (cases "rc + 1 \<ge> max_retries")
        case True
        with assms(2) x HttpError Backoff_or_raise show ?thesis by simp
      next
        case False
        with assms(2) x HttpError Backoff_or_raise via_loop [OF kb, of "rc + 1" "[Backoff ?d]"]
        show ?thesis by simp
      qed
    qed
  qed
qed

lemma create_youtube_service_selected:
  "get_next_api_key s = Inr (k, s1) \<Longrightarrow>
     create_youtube_service s script tr = retry_loop k 0 s1 script tr"
  by (simp add: create_youtube_service.simps)

lemma first_failure_backoff:
  assumes sel: "get_next_api_key s = Inr (k, s1)"
    and cl: "\<forall>msg. classify c reason \<noteq> Remove_key msg"
  shows "\<exists>r s' more. create_youtube_service s ((HttpError c reason, j) # x # rest) tr
           = (r, s', tr @ [Build k, Backoff (base_delay * 2 + j), Build k] @ more)"
proof -
  let ?d = "base_delay * 2 ^ (0 + 1) + j"
  let ?sb = "sleep (record_error s1 k) ?d"
  from get_next_api_key_Inr [OF sel] have k1: "k \<in> set (api_keys s1)" by simp
  then have kb: "k \<in> set (api_keys ?sb)" by simp
  have lt: "(1::nat) < max_retries" by (simp add: max_retries_def)
  have "retry_loop k 0 s1 ((HttpError c reason, j) # x # rest) tr
          = retry_loop k 1 ?sb (x # rest) (tr @ [Build k, Backoff ?d])"
    using cl by (cases "classify c reason") (simp_all add: max_retries_def)
  moreover from retry_loop_first_build [OF kb lt, of x rest "tr @ [Build k, Backoff ?d]"]
  obtain r s' more where
    "retry_loop k 1 ?sb (x # rest) (tr @ [Build k, Backoff ?d]) = (r, s', (tr @ [Build k, Backoff ?d]) @ Build k # more)"
    by blast
  ultimately show ?thesis
    using create_youtube_service_selected [OF sel] by simp
qed




















end
